theory Spec2Isabelle
  imports Main "HOL-Library.AList" "HOL-Library.Char_ord" "HOL-Library.List_Lexorder"
    "HOL-Library.Product_Lexorder"
begin

section \<open>The Sudoku solver of \<^verbatim>\<open>solution.py\<close>\<close>

text \<open>
  A shallow embedding of \<^verbatim>\<open>solution.py\<close>. A box name such as \<^verbatim>\<open>'A1'\<close> is a
  Python string, here a \<open>string\<close>; a candidate set is the Python string of its digits.
  A Python \<^verbatim>\<open>dict\<close> keeps its keys in insertion order and \<^verbatim>\<open>eliminate\<close> iterates
  over it while writing to it, so a dict is an association list: the list order is the
  iteration order, \<open>map_of\<close> is the lookup and \<open>AList.update\<close> the item assignment
  (it overwrites in place a key that is there and appends a new one).
\<close>

type_synonym box = string
type_synonym items = "(box \<times> string) list"

text \<open>The exceptions the code can raise: a missing key, and \<^verbatim>\<open>min\<close> of nothing.\<close>

datatype error = KeyError | ValueError

subsection \<open>The dict subclass that records assignments\<close>

text \<open>
  \<^verbatim>\<open>class VisualizibleDict(dict)\<close> adds the list \<^verbatim>\<open>assignments\<close> to a dict.
  \<^verbatim>\<open>dict.copy\<close> returns a plain \<^verbatim>\<open>dict\<close> also for an instance of the subclass, so both
  kinds of object reach the solver: the root of the search works on a
  \<open>VisualizibleDict\<close>, every branch and every recorded snapshot is a plain \<open>Dict\<close>.
\<close>

datatype pydict = Dict items | VisualizibleDict items "items list"

fun items_of :: "pydict \<Rightarrow> items" where
  "items_of (Dict al) = al"
| "items_of (VisualizibleDict al hist) = al"

fun assignments :: "pydict \<Rightarrow> items list option" where
  "assignments (Dict al) = None"
| "assignments (VisualizibleDict al hist) = Some hist"

definition keys :: "pydict \<Rightarrow> box list" where
  "keys d = map fst (items_of d)"

text \<open>\<^verbatim>\<open>values[box]\<close>: raises \<^verbatim>\<open>KeyError\<close> for a key that is not there.\<close>

definition getitem :: "pydict \<Rightarrow> box \<Rightarrow> error + string" where
  "getitem d box = (case map_of (items_of d) box of None \<Rightarrow> Inl KeyError | Some v \<Rightarrow> Inr v)"

text \<open>
  \<^verbatim>\<open>values[box] = value\<close>. On a plain dict it stores. On a \<open>VisualizibleDict\<close> it is
  \<^verbatim>\<open>__setitem__\<close> of the source: \<^verbatim>\<open>self[box] == value\<close> is read first (a
  \<^verbatim>\<open>KeyError\<close> for a new key) and ends the call when it holds; otherwise the value is
  stored and, when \<^verbatim>\<open>len(value) == 1\<close>, \<^verbatim>\<open>self.copy()\<close> is appended to
  \<^verbatim>\<open>self.assignments\<close>.
\<close>

fun setitem :: "pydict \<Rightarrow> box \<Rightarrow> string \<Rightarrow> error + pydict" where
  "setitem (Dict al) box val = Inr (Dict (AList.update box val al))"
| "setitem (VisualizibleDict al hist) box val =
     (case map_of al box of
        None \<Rightarrow> Inl KeyError
      | Some cur \<Rightarrow>
          if cur = val then Inr (VisualizibleDict al hist)
          else (let al' = AList.update box val al
                in if length val = 1 then Inr (VisualizibleDict al' (hist @ [al']))
                   else Inr (VisualizibleDict al' hist)))"

text \<open>\<^verbatim>\<open>values.copy()\<close>: a plain dict with the same items in the same order.\<close>

definition copy :: "pydict \<Rightarrow> pydict" where
  "copy d = Dict (items_of d)"

subsection \<open>The topology\<close>

definition cross :: "string \<Rightarrow> string \<Rightarrow> string list" where
  "cross A B = concat (map (\<lambda>a. map (\<lambda>b. [a, b]) B) A)"

definition rows :: string where
  "rows = ''ABCDEFGHI''"

definition cols :: string where
  "cols = ''123456789''"

definition boxes :: "box list" where
  "boxes = cross rows cols"

definition row_units :: "box list list" where
  "row_units = map (\<lambda>r. cross [r] cols) rows"

definition column_units :: "box list list" where
  "column_units = map (\<lambda>c. cross rows [c]) cols"

definition square_units :: "box list list" where
  "square_units =
     concat (map (\<lambda>rs. map (\<lambda>cs. cross rs cs) [''123'', ''456'', ''789''])
       [''ABC'', ''DEF'', ''GHI''])"

definition diagonal_units :: "box list list" where
  "diagonal_units =
     [map (\<lambda>(r, c). [r, c]) (zip rows cols), map (\<lambda>(r, c). [r, c]) (zip rows (rev cols))]"

definition units :: "box list list" where
  "units = row_units @ column_units @ square_units @ diagonal_units"

text \<open>
  \<^verbatim>\<open>box_units\<close> and \<^verbatim>\<open>box_peers\<close> are dicts keyed by the boxes: \<open>None\<close> stands for
  a key that is not there. \<^verbatim>\<open>sum(box_units[s], [])\<close> concatenates the units of \<open>s\<close>.
\<close>

definition box_units :: "box \<Rightarrow> box list list option" where
  "box_units s = (if s \<in> set boxes then Some (filter (\<lambda>u. s \<in> set u) units) else None)"

definition box_peers :: "box \<Rightarrow> box set option" where
  "box_peers s = (case box_units s of None \<Rightarrow> None | Some us \<Rightarrow> Some (set (concat us) - {s}))"

text \<open>
  \<^verbatim>\<open>grid_values\<close>: the dict comprehension over \<^verbatim>\<open>zip(cross(rows, cols), grid)\<close>; the
  zip stops at the shorter of the two, and the keys are distinct, so each pair is a
  new item.
\<close>

definition grid_values :: "string \<Rightarrow> items" where
  "grid_values grid =
     map (\<lambda>pair. (fst pair, if snd pair \<in> set ''123456789'' then [snd pair] else ''123456789''))
       (zip (cross rows cols) grid)"

subsection \<open>What the strategies return\<close>

text \<open>
  The strategies change the dict they are given in place and return it, or return
  \<^verbatim>\<open>False\<close>. \<open>RetFalse s\<close> is \<^verbatim>\<open>return False\<close> with the dict left in state \<open>s\<close>
  (the caller still holds the object), \<open>RetValues s\<close> is \<^verbatim>\<open>return values\<close> with the
  dict in state \<open>s\<close>. The loops inside \<^verbatim>\<open>eliminate\<close> use the same type: \<open>RetValues s\<close>
  is then a loop that ran to its end.
\<close>

datatype outcome = RetFalse pydict | RetValues pydict

text \<open>What \<^verbatim>\<open>reduce_puzzle\<close>, \<^verbatim>\<open>search\<close> and \<^verbatim>\<open>solve\<close> return; \<^verbatim>\<open>None\<close> is what a
  function returns that runs off its end.\<close>

datatype pyval = PyFalse | PyNone | PyDict pydict

text \<open>Python's truth value: \<^verbatim>\<open>False\<close>, \<^verbatim>\<open>None\<close> and the empty dict are false.\<close>

fun truthy :: "pyval \<Rightarrow> bool" where
  "truthy PyFalse = False"
| "truthy PyNone = False"
| "truthy (PyDict d) = (items_of d \<noteq> [])"

text \<open>\<^verbatim>\<open>s.replace(c, '')\<close> for a string \<open>c\<close> of one character.\<close>

definition replace_char :: "char \<Rightarrow> string \<Rightarrow> string" where
  "replace_char c s = filter (\<lambda>x. x \<noteq> c) s"

subsection \<open>Elimination\<close>

text \<open>
  The inner loop \<^verbatim>\<open>for peer in box_peers[box]\<close>, over the peers in the order the
  Python set yields them.
\<close>

fun eliminate_peers :: "char \<Rightarrow> box list \<Rightarrow> pydict \<Rightarrow> error + outcome" where
  "eliminate_peers box_value [] values = Inr (RetValues values)"
| "eliminate_peers box_value (peer # peers) values =
     (case getitem values peer of
        Inl e \<Rightarrow> Inl e
      | Inr v \<Rightarrow>
          (let new_value = replace_char box_value v
           in if new_value = [] then Inr (RetFalse values)
              else (case setitem values peer new_value of
                      Inl e \<Rightarrow> Inl e
                    | Inr values' \<Rightarrow> eliminate_peers box_value peers values')))"

text \<open>
  The outer loop runs over a generator that filters \<^verbatim>\<open>values.items()\<close> lazily: the
  keys come in dict order, and \<^verbatim>\<open>len(v) == 1\<close> is tested on the value the key has
  when the iteration reaches it. A Python set has no specified iteration order, so the
  order in which the peers of a box are visited is the parameter \<open>peer_order\<close>.
\<close>

fun eliminate_boxes :: "(box \<Rightarrow> box list) \<Rightarrow> box list \<Rightarrow> pydict \<Rightarrow> error + outcome" where
  "eliminate_boxes peer_order [] values = Inr (RetValues values)"
| "eliminate_boxes peer_order (box # rest) values =
     (case getitem values box of
        Inl e \<Rightarrow> Inl e
      | Inr [box_value] \<Rightarrow>
          (case box_peers box of
             None \<Rightarrow> Inl KeyError
           | Some _ \<Rightarrow>
               (case eliminate_peers box_value (peer_order box) values of
                  Inl e \<Rightarrow> Inl e
                | Inr (RetFalse s) \<Rightarrow> Inr (RetFalse s)
                | Inr (RetValues values') \<Rightarrow> eliminate_boxes peer_order rest values'))
      | Inr _ \<Rightarrow> eliminate_boxes peer_order rest values)"

definition eliminate :: "(box \<Rightarrow> box list) \<Rightarrow> pydict \<Rightarrow> error + outcome" where
  "eliminate peer_order values = eliminate_boxes peer_order (keys values) values"

text \<open>\<open>peer_order\<close> stands for the iteration of the sets \<^verbatim>\<open>box_peers[s]\<close> when it
  yields each peer of each box once.\<close>

definition enumerates_peers :: "(box \<Rightarrow> box list) \<Rightarrow> bool" where
  "enumerates_peers peer_order \<longleftrightarrow>
     (\<forall>s \<in> set boxes. distinct (peer_order s) \<and> box_peers s = Some (set (peer_order s)))"

text \<open>One such order, for running the model: first occurrence in the units of the box.\<close>

definition peer_list :: "box \<Rightarrow> box list" where
  "peer_list s = removeAll s (remdups (concat (filter (\<lambda>u. s \<in> set u) units)))"

subsection \<open>Only choice\<close>

text \<open>\<^verbatim>\<open>[box for box in unit if digit in values[box]]\<close>\<close>

fun digit_boxes :: "pydict \<Rightarrow> char \<Rightarrow> box list \<Rightarrow> error + box list" where
  "digit_boxes values digit [] = Inr []"
| "digit_boxes values digit (box # unit) =
     (case getitem values box of
        Inl e \<Rightarrow> Inl e
      | Inr v \<Rightarrow>
          (case digit_boxes values digit unit of
             Inl e \<Rightarrow> Inl e
           | Inr bs \<Rightarrow> Inr (if digit \<in> set v then box # bs else bs)))"

fun only_choice_digits :: "box list \<Rightarrow> string \<Rightarrow> pydict \<Rightarrow> error + pydict" where
  "only_choice_digits unit [] values = Inr values"
| "only_choice_digits unit (digit # digits) values =
     (case digit_boxes values digit unit of
        Inl e \<Rightarrow> Inl e
      | Inr [b] \<Rightarrow>
          (case setitem values b [digit] of
             Inl e \<Rightarrow> Inl e
           | Inr values' \<Rightarrow> only_choice_digits unit digits values')
      | Inr _ \<Rightarrow> only_choice_digits unit digits values)"

fun only_choice_units :: "box list list \<Rightarrow> pydict \<Rightarrow> error + pydict" where
  "only_choice_units [] values = Inr values"
| "only_choice_units (unit # rest) values =
     (case only_choice_digits unit ''123456789'' values of
        Inl e \<Rightarrow> Inl e
      | Inr values' \<Rightarrow> only_choice_units rest values')"

definition only_choice :: "pydict \<Rightarrow> error + pydict" where
  "only_choice values = only_choice_units units values"

subsection \<open>Naked twins\<close>

text \<open>
  The pairs of a unit come from a generator, so the test of a pair reads the dict as
  the earlier pairs have left it. \<^verbatim>\<open>box1 < box2\<close> compares strings; it comes first in
  the \<^verbatim>\<open>and\<close>, so the values of a pair that fails it are not read.
\<close>

fun twins_others :: "char \<Rightarrow> char \<Rightarrow> box list \<Rightarrow> pydict \<Rightarrow> error + pydict" where
  "twins_others p0 p1 [] values = Inr values"
| "twins_others p0 p1 (box # others) values =
     (case getitem values box of
        Inl e \<Rightarrow> Inl e
      | Inr v \<Rightarrow>
          (case setitem values box (replace_char p1 (replace_char p0 v)) of
             Inl e \<Rightarrow> Inl e
           | Inr values' \<Rightarrow> twins_others p0 p1 others values'))"

fun twins_box2 :: "box list \<Rightarrow> box \<Rightarrow> box list \<Rightarrow> pydict \<Rightarrow> error + pydict" where
  "twins_box2 unit box1 [] values = Inr values"
| "twins_box2 unit box1 (box2 # rest) values =
     (if box1 < box2 then
        (case getitem values box1 of
           Inl e \<Rightarrow> Inl e
         | Inr [p0, p1] \<Rightarrow>
             (case getitem values box2 of
                Inl e \<Rightarrow> Inl e
              | Inr v2 \<Rightarrow>
                  if set [p0, p1] = set v2 then
                    (case twins_others p0 p1 (filter (\<lambda>box. box \<notin> set [box1, box2]) unit) values of
                       Inl e \<Rightarrow> Inl e
                     | Inr values' \<Rightarrow> twins_box2 unit box1 rest values')
                  else twins_box2 unit box1 rest values)
         | Inr _ \<Rightarrow> twins_box2 unit box1 rest values)
      else twins_box2 unit box1 rest values)"

fun twins_box1 :: "box list \<Rightarrow> box list \<Rightarrow> pydict \<Rightarrow> error + pydict" where
  "twins_box1 unit [] values = Inr values"
| "twins_box1 unit (box1 # rest) values =
     (case twins_box2 unit box1 unit values of
        Inl e \<Rightarrow> Inl e
      | Inr values' \<Rightarrow> twins_box1 unit rest values')"

fun twins_units :: "box list list \<Rightarrow> pydict \<Rightarrow> error + pydict" where
  "twins_units [] values = Inr values"
| "twins_units (unit # rest) values =
     (case twins_box1 unit unit values of
        Inl e \<Rightarrow> Inl e
      | Inr values' \<Rightarrow> twins_units rest values')"

definition naked_twins :: "pydict \<Rightarrow> error + pydict" where
  "naked_twins values = twins_units units values"

subsection \<open>The reduction loop\<close>

text \<open>\<^verbatim>\<open>sum(1 for box, digits in values.items() if len(digits) == 1)\<close>\<close>

definition solved_count :: "pydict \<Rightarrow> nat" where
  "solved_count values = length (filter (\<lambda>(box, digits). length digits = 1) (items_of values))"

text \<open>
  \<^verbatim>\<open>while True\<close> with its \<^verbatim>\<open>break\<close> as the recursion. \<^verbatim>\<open>eliminate\<close> and
  \<^verbatim>\<open>only_choice\<close> return the dict they were given, so \<open>values1\<close> and \<open>values2\<close> are
  the states of the one object \<^verbatim>\<open>values\<close>; \<^verbatim>\<open>if not ...\<close> asks for the truth value of
  what was returned. The termination proof follows the lemmas it needs.
\<close>

function reduce_puzzle :: "(box \<Rightarrow> box list) \<Rightarrow> pydict \<Rightarrow> error + pyval" where
  "reduce_puzzle peer_order values =
     (let solved_count_old = solved_count values
      in case eliminate peer_order values of
           Inl e \<Rightarrow> Inl e
         | Inr (RetFalse s) \<Rightarrow> Inr PyFalse
         | Inr (RetValues values1) \<Rightarrow>
             if \<not> truthy (PyDict values1) then Inr PyFalse
             else (case only_choice values1 of
                     Inl e \<Rightarrow> Inl e
                   | Inr values2 \<Rightarrow>
                       if \<not> truthy (PyDict values2) then Inr PyFalse
                       else (let solved_count_new = solved_count values2
                             in if solved_count_new = solved_count_old then Inr (PyDict values2)
                                else reduce_puzzle peer_order values2)))"
  by pat_completeness auto

subsection \<open>The search\<close>

text \<open>\<^verbatim>\<open>any(True for s in boxes if len(values[s]) != 1)\<close> stops at the first such box.\<close>

fun any_unsolved :: "pydict \<Rightarrow> box list \<Rightarrow> error + bool" where
  "any_unsolved values [] = Inr False"
| "any_unsolved values (s # rest) =
     (case getitem values s of
        Inl e \<Rightarrow> Inl e
      | Inr v \<Rightarrow> if length v \<noteq> 1 then Inr True else any_unsolved values rest)"

text \<open>The generator \<^verbatim>\<open>(box, len(values[box])) for box in boxes if len(values[box]) > 1\<close>,
  which \<^verbatim>\<open>min\<close> reads to its end.\<close>

fun unsolved_pairs :: "pydict \<Rightarrow> box list \<Rightarrow> error + (box \<times> nat) list" where
  "unsolved_pairs values [] = Inr []"
| "unsolved_pairs values (box # rest) =
     (case getitem values box of
        Inl e \<Rightarrow> Inl e
      | Inr v \<Rightarrow>
          (case unsolved_pairs values rest of
             Inl e \<Rightarrow> Inl e
           | Inr ps \<Rightarrow> Inr (if length v > 1 then (box, length v) # ps else ps)))"

text \<open>
  \<^verbatim>\<open>min\<close> of an iterable raises \<^verbatim>\<open>ValueError\<close> when it is empty. It compares the
  tuples \<^verbatim>\<open>(box, len)\<close> as Python does, first by the box name (a string, compared
  character by character) and then by the length: the order of \<open>box \<times> nat\<close>.
\<close>

fun py_min :: "'a::linorder list \<Rightarrow> error + 'a" where
  "py_min [] = Inl ValueError"
| "py_min (x # xs) = Inr (fold min xs x)"

text \<open>
  The loop \<^verbatim>\<open>for value in values[box]\<close>: the first attempt that is true is returned,
  and a loop that runs to its end leaves the function without a \<^verbatim>\<open>return\<close>, which
  yields \<^verbatim>\<open>None\<close>.
\<close>

fun first_truthy :: "('a \<Rightarrow> error + pyval) \<Rightarrow> 'a list \<Rightarrow> error + pyval" where
  "first_truthy body [] = Inr PyNone"
| "first_truthy body (x # xs) =
     (case body x of
        Inl e \<Rightarrow> Inl e
      | Inr attempt \<Rightarrow> if truthy attempt then Inr attempt else first_truthy body xs)"

lemma first_truthy_cong [fundef_cong]:
  "xs = ys \<Longrightarrow> (\<And>x. x \<in> set ys \<Longrightarrow> f x = g x) \<Longrightarrow> first_truthy f xs = first_truthy g ys"
  by (induction ys arbitrary: xs) (auto split: sum.splits)

text \<open>
  \<^verbatim>\<open>search\<close>. After \<^verbatim>\<open>reduce_puzzle(values)\<close> returned the dict, \<open>values1\<close> is the
  state of \<^verbatim>\<open>values\<close>. \<^verbatim>\<open>box, _ = min(...)\<close> keeps the first component of the least
  tuple. The termination proof follows the lemmas it needs.
\<close>

function search :: "(box \<Rightarrow> box list) \<Rightarrow> pydict \<Rightarrow> error + pyval" where
  "search peer_order values =
     (case reduce_puzzle peer_order values of
        Inl e \<Rightarrow> Inl e
      | Inr PyFalse \<Rightarrow> Inr PyFalse
      | Inr PyNone \<Rightarrow> Inr PyFalse
      | Inr (PyDict values1) \<Rightarrow>
          if \<not> truthy (PyDict values1) then Inr PyFalse
          else (case any_unsolved values1 boxes of
                  Inl e \<Rightarrow> Inl e
                | Inr False \<Rightarrow> Inr (PyDict values1)
                | Inr True \<Rightarrow>
                    (case unsolved_pairs values1 boxes of
                       Inl e \<Rightarrow> Inl e
                     | Inr pairs \<Rightarrow>
                         (case py_min pairs of
                            Inl e \<Rightarrow> Inl e
                          | Inr (box, _) \<Rightarrow>
                              (case getitem values1 box of
                                 Inl e \<Rightarrow> Inl e
                               | Inr vs \<Rightarrow>
                                   first_truthy
                                     (\<lambda>value.
                                        case setitem (copy values1) box [value] of
                                          Inl e \<Rightarrow> Inl e
                                        | Inr new_sudoku \<Rightarrow> search peer_order new_sudoku)
                                     vs)))))"
  by pat_completeness auto

text \<open>\<^verbatim>\<open>solve\<close>: the dict of \<^verbatim>\<open>grid_values\<close> becomes a \<open>VisualizibleDict\<close> with no
  assignments yet.\<close>

definition solve :: "(box \<Rightarrow> box list) \<Rightarrow> string \<Rightarrow> error + pyval" where
  "solve peer_order grid = search peer_order (VisualizibleDict (grid_values grid) [])"

subsection \<open>Notions used in the statements\<close>

text \<open>The state a strategy leaves the dict in, whatever it returns.\<close>

fun state_of :: "outcome \<Rightarrow> pydict" where
  "state_of (RetFalse s) = s"
| "state_of (RetValues s) = s"

text \<open>
  \<open>narrows v v'\<close>: the candidates \<open>v'\<close> are among the candidates \<open>v\<close>, no more of them,
  and not none of them unless \<open>v\<close> was empty. \<open>pointwise R d d'\<close>: the dict \<open>d'\<close> has the
  keys of \<open>d\<close>, in the same order, and each value of \<open>d\<close> is related by \<open>R\<close> to the value
  of \<open>d'\<close> in its place.
\<close>

definition narrows :: "string \<Rightarrow> string \<Rightarrow> bool" where
  "narrows v v' \<longleftrightarrow> set v' \<subseteq> set v \<and> length v' \<le> length v \<and> (v \<noteq> [] \<longrightarrow> v' \<noteq> [])"

definition pointwise :: "(string \<Rightarrow> string \<Rightarrow> bool) \<Rightarrow> pydict \<Rightarrow> pydict \<Rightarrow> bool" where
  "pointwise R d d' \<longleftrightarrow>
     list_all2 (\<lambda>p p'. fst p' = fst p \<and> R (snd p) (snd p')) (items_of d) (items_of d')"

abbreviation contracts :: "pydict \<Rightarrow> pydict \<Rightarrow> bool" where
  "contracts \<equiv> pointwise narrows"

text \<open>The number of candidates left in the whole dict: what a branch of the search
  makes smaller.\<close>

definition total_len :: "pydict \<Rightarrow> nat" where
  "total_len d = sum_list (map (\<lambda>p. length (snd p)) (items_of d))"

text \<open>A box lies on a diagonal when one of the two diagonal units holds it.\<close>

definition on_diagonal :: "box \<Rightarrow> bool" where
  "on_diagonal s \<longleftrightarrow> (\<exists>u \<in> set diagonal_units. s \<in> set u)"

text \<open>No box has lost all its candidates.\<close>

definition nonempty_values :: "pydict \<Rightarrow> bool" where
  "nonempty_values d \<longleftrightarrow> (\<forall>p \<in> set (items_of d). snd p \<noteq> [])"

text \<open>A grid with the digit 1 twice in row A, at \<^verbatim>\<open>A1\<close> and \<^verbatim>\<open>A4\<close>.\<close>

definition clash_grid :: string where
  "clash_grid = ''1..1'' @ replicate 77 CHR ''.''"

text \<open>A candidate map: a dict whose keys are the 81 boxes, each once, in any order.\<close>

definition candidate_map :: "pydict \<Rightarrow> bool" where
  "candidate_map d \<longleftrightarrow> distinct (keys d) \<and> set (keys d) = set boxes"

text \<open>\<open>forced v v'\<close>: the candidates \<open>v'\<close> are \<open>v\<close> as they were, or one digit that was
  among \<open>v\<close>.\<close>

definition forced :: "string \<Rightarrow> string \<Rightarrow> bool" where
  "forced v v' \<longleftrightarrow> v' = v \<or> (\<exists>digit \<in> set v. v' = [digit])"

text \<open>The grid that \<^verbatim>\<open>solution.py\<close> solves when it is run as a script.\<close>

definition example_grid :: string where
  "example_grid =
     ''2.............62....1....7...6..8...3...9...7...6..4...4....8....52.............3''"

text \<open>Every candidate is one of the digits 1 to 9.\<close>

definition digit_values :: "pydict \<Rightarrow> bool" where
  "digit_values d \<longleftrightarrow> (\<forall>p \<in> set (items_of d). set (snd p) \<subseteq> set ''123456789'')"

text \<open>A solved grid: every box holds one digit, and every unit holds each digit in
  exactly one of its boxes.\<close>

definition solved_grid :: "pydict \<Rightarrow> bool" where
  "solved_grid d \<longleftrightarrow>
     (\<forall>box \<in> set boxes. \<exists>digit \<in> set ''123456789''. getitem d box = Inr [digit]) \<and>
     (\<forall>unit \<in> set units. \<forall>digit \<in> set ''123456789''.
        length (filter (\<lambda>box. getitem d box = Inr [digit]) unit) = 1)"

text \<open>The completed grid of \<open>example_grid\<close>.\<close>

definition example_solution :: string where
  "example_solution =
     ''267945381853716249491823576576438192384192657129657438642379815935281764718564923''"

text \<open>
  A dict agrees with a grid string when every box whose character in the string is a
  digit holds that digit. A grid is contradictory when no solved grid agrees with it.
\<close>

definition agrees :: "string \<Rightarrow> pydict \<Rightarrow> bool" where
  "agrees grid d \<longleftrightarrow>
     (\<forall>clue \<in> set (zip boxes grid).
        snd clue \<in> set ''123456789'' \<longrightarrow> getitem d (fst clue) = Inr [snd clue])"

definition contradictory :: "string \<Rightarrow> bool" where
  "contradictory grid \<longleftrightarrow> \<not> (\<exists>d. solved_grid d \<and> agrees grid d)"

text \<open>
  A candidate map on which the reduction changes nothing: every box has all nine
  candidates, but \<^verbatim>\<open>I9\<close> has two.
\<close>

definition branch_example :: pydict where
  "branch_example =
     Dict (map (\<lambda>b. (b, if b = ''I9'' then ''12'' else ''123456789'')) boxes)"

text \<open>
  Naked twins in a unit: \<open>box1\<close> comes before \<open>box2\<close> in the order of the names, has
  two candidates, and \<open>box2\<close> has the same set of candidates. Something is left to
  remove when another box of the unit still has one of the two digits. A dict is
  reduced for naked twins when no pair of twins in any unit has anything left to
  remove.
\<close>

definition twin_pair :: "pydict \<Rightarrow> box \<Rightarrow> box \<Rightarrow> bool" where
  "twin_pair d box1 box2 \<longleftrightarrow> box1 < box2 \<and>
     (case getitem d box1 of
        Inr [p0, p1] \<Rightarrow> (case getitem d box2 of Inr v2 \<Rightarrow> set [p0, p1] = set v2 | Inl e \<Rightarrow> False)
      | _ \<Rightarrow> False)"

definition prohibited_left :: "pydict \<Rightarrow> box list \<Rightarrow> box \<Rightarrow> box \<Rightarrow> bool" where
  "prohibited_left d unit box1 box2 \<longleftrightarrow>
     (\<exists>box \<in> set unit. box \<notin> set [box1, box2] \<and>
        (case getitem d box1 of
           Inr [p0, p1] \<Rightarrow> (case getitem d box of Inr v \<Rightarrow> p0 \<in> set v \<or> p1 \<in> set v | Inl e \<Rightarrow> False)
         | _ \<Rightarrow> False))"

definition twins_reduced :: "pydict \<Rightarrow> bool" where
  "twins_reduced d \<longleftrightarrow>
     (\<forall>unit \<in> set units. \<forall>box1 \<in> set unit. \<forall>box2 \<in> set unit.
        twin_pair d box1 box2 \<longrightarrow> \<not> prohibited_left d unit box1 box2)"

text \<open>\<open>lighter d d'\<close>: the same keys, and either the same dict or fewer candidates in all.\<close>

definition lighter :: "pydict \<Rightarrow> pydict \<Rightarrow> bool" where
  "lighter d d' \<longleftrightarrow> keys d' = keys d \<and> (d' = d \<or> total_len d' < total_len d)"

section \<open>Properties of the operations\<close>

subsection \<open>Dict access\<close>

lemma getitem_Inr: "getitem d k = Inr v \<longleftrightarrow> map_of (items_of d) k = Some v"
  by (simp add: getitem_def split: option.splits)

lemma setitem_items:
  "setitem d k v' = Inr d' \<Longrightarrow> items_of d' = AList.update k v' (items_of d)"
  by (cases d) (auto simp: Let_def update_triv split: option.splits if_splits)

lemma setitem_ok: "getitem d k = Inr v \<Longrightarrow> \<exists>d'. setitem d k v' = Inr d'"
  by (cases d) (auto simp: getitem_Inr Let_def)

lemma pointwise_refl: "(\<And>x. R x x) \<Longrightarrow> pointwise R d d"
  by (simp add: pointwise_def list_all2_refl)

lemma pointwise_trans:
  "(\<And>x y z. R x y \<Longrightarrow> R y z \<Longrightarrow> R x z) \<Longrightarrow> pointwise R a b \<Longrightarrow> pointwise R b c \<Longrightarrow> pointwise R a c"
proof -
  assume tr: "\<And>x y z. R x y \<Longrightarrow> R y z \<Longrightarrow> R x z"
    and ab: "pointwise R a b" and bc: "pointwise R b c"
  let ?P = "\<lambda>p p'. fst p' = fst p \<and> R (snd p) (snd p')"
  have "list_all2 ?P (items_of a) (items_of c)"
  proof (rule list_all2_trans[where ?P1.0 = ?P and ?P2.0 = ?P])
    show "list_all2 ?P (items_of a) (items_of b)" using ab by (simp add: pointwise_def)
    show "list_all2 ?P (items_of b) (items_of c)" using bc by (simp add: pointwise_def)
  qed (auto intro: tr)
  then show ?thesis by (simp add: pointwise_def)
qed

lemma update_list_all2:
  "map_of al k = Some v \<Longrightarrow> R v v' \<Longrightarrow> (\<And>x. R x x) \<Longrightarrow>
   list_all2 (\<lambda>p p'. fst p' = fst p \<and> R (snd p) (snd p')) al (AList.update k v' al)"
  by (induction al) (auto simp: list_all2_refl)

lemma setitem_pointwise:
  "getitem d k = Inr v \<Longrightarrow> setitem d k v' = Inr d' \<Longrightarrow> R v v' \<Longrightarrow> (\<And>x. R x x) \<Longrightarrow> pointwise R d d'"
  by (simp add: pointwise_def setitem_items getitem_Inr update_list_all2)

lemma narrows_refl: "narrows v v"
  by (simp add: narrows_def)

lemma narrows_trans: "narrows a b \<Longrightarrow> narrows b c \<Longrightarrow> narrows a c"
  by (auto simp: narrows_def)

lemma narrows_replace_char: "replace_char c v \<noteq> [] \<Longrightarrow> narrows v (replace_char c v)"
  by (auto simp: narrows_def replace_char_def)

lemma eliminate_peers_contracts:
  "eliminate_peers c ps d = Inr r \<Longrightarrow> pointwise narrows d (state_of r)"
proof (induction ps arbitrary: d)
  case Nil
  then show ?case by (auto simp: pointwise_refl narrows_refl)
next
  case (Cons p ps)
  show ?case
  proof (cases "getitem d p")
    case (Inl e)
    with Cons.prems show ?thesis by simp
  next
    case (Inr v)
    show ?thesis
    proof (cases "replace_char c v = []")
      case True
      with Cons.prems Inr show ?thesis by (auto simp: pointwise_refl narrows_refl)
    next
      case False
      from setitem_ok[OF Inr] obtain d' where d': "setitem d p (replace_char c v) = Inr d'" by blast
      from Cons.prems Inr False d' have "eliminate_peers c ps d' = Inr r" by simp
      then have "pointwise narrows d' (state_of r)" by (rule Cons.IH)
      moreover have "pointwise narrows d d'"
        using setitem_pointwise[where R = narrows, OF Inr d' narrows_replace_char[OF False]] narrows_refl by blast
      ultimately show ?thesis using pointwise_trans[of narrows] narrows_trans by blast
    qed
  qed
qed


lemma contracts_refl: "contracts d d"
  by (simp add: pointwise_refl narrows_refl)

lemma contracts_trans: "contracts a b \<Longrightarrow> contracts b c \<Longrightarrow> contracts a c"
  using pointwise_trans[where R = narrows] narrows_trans by blast

lemma setitem_contracts:
  "getitem d k = Inr v \<Longrightarrow> setitem d k v' = Inr d' \<Longrightarrow> narrows v v' \<Longrightarrow> contracts d d'"
  using setitem_pointwise[where R = narrows] narrows_refl by blast

lemma eliminate_boxes_contracts:
  "eliminate_boxes po ks d = Inr r \<Longrightarrow> contracts d (state_of r)"
proof (induction ks arbitrary: d)
  case Nil
  then show ?case by (auto simp: contracts_refl)
next
  case (Cons k ks)
  then show ?case
    by (auto split: sum.splits list.splits option.splits outcome.splits
        dest!: eliminate_peers_contracts intro: contracts_trans contracts_refl)
qed

lemma eliminate_contracts: "eliminate po d = Inr r \<Longrightarrow> contracts d (state_of r)"
  unfolding eliminate_def by (rule eliminate_boxes_contracts)

lemma digit_boxes_sound:
  "digit_boxes d c u = Inr bs \<Longrightarrow> b \<in> set bs \<Longrightarrow> \<exists>v. getitem d b = Inr v \<and> c \<in> set v"
  by (induction u arbitrary: bs) (auto split: sum.splits if_splits)

lemma narrows_digit: "c \<in> set v \<Longrightarrow> narrows v [c]"
  by (cases v) (auto simp: narrows_def)

lemma only_choice_digits_contracts:
  "only_choice_digits u ds d = Inr d' \<Longrightarrow> contracts d d'"
proof (induction ds arbitrary: d)
  case Nil
  then show ?case by (simp add: contracts_refl)
next
  case (Cons c ds)
  show ?case
  proof (cases "digit_boxes d c u")
    case (Inl e)
    with Cons.prems show ?thesis by simp
  next
    case (Inr bs)
    show ?thesis
    proof (cases "\<exists>b. bs = [b]")
      case True
      then obtain b where bs: "bs = [b]" by blast
      with digit_boxes_sound[OF Inr, of b] obtain v where v: "getitem d b = Inr v" "c \<in> set v"
        by auto
      from setitem_ok[OF v(1)] obtain d1 where d1: "setitem d b [c] = Inr d1" by blast
      from Cons.prems Inr bs d1 have "only_choice_digits u ds d1 = Inr d'" by simp
      then have "contracts d1 d'" by (rule Cons.IH)
      moreover have "contracts d d1" using setitem_contracts[OF v(1) d1] narrows_digit[OF v(2)] .
      ultimately show ?thesis by (blast intro: contracts_trans)
    next
      case False
      with Cons.prems Inr have "only_choice_digits u ds d = Inr d'"
        by (auto split: list.splits)
      then show ?thesis by (rule Cons.IH)
    qed
  qed
qed

lemma only_choice_units_contracts:
  "only_choice_units us d = Inr d' \<Longrightarrow> contracts d d'"
proof (induction us arbitrary: d)
  case Nil
  then show ?case by (simp add: contracts_refl)
next
  case (Cons u us)
  from Cons.prems obtain d1 where d1: "only_choice_digits u ''123456789'' d = Inr d1"
    and rest: "only_choice_units us d1 = Inr d'"
    by (auto simp del: only_choice_digits.simps split: sum.splits)
  from only_choice_digits_contracts[OF d1] Cons.IH[OF rest] show ?case
    by (rule contracts_trans)
qed

lemma only_choice_contracts: "only_choice d = Inr d' \<Longrightarrow> contracts d d'"
  unfolding only_choice_def by (rule only_choice_units_contracts)

lemma narrows_solved: "narrows v v' \<Longrightarrow> length v = 1 \<Longrightarrow> v' = v"
  by (cases v; cases v') (auto simp: narrows_def)

lemma contracts_length: "contracts d d' \<Longrightarrow> length (items_of d') = length (items_of d)"
  by (simp add: pointwise_def list_all2_lengthD)

lemma contracts_keys: "contracts d d' \<Longrightarrow> keys d' = keys d"
proof -
  have "list_all2 (\<lambda>p p'. fst p' = fst p \<and> narrows (snd p) (snd p')) xs ys \<Longrightarrow> map fst ys = map fst xs"
    for xs ys :: items
    by (induction xs ys rule: list_all2_induct) auto
  then show "contracts d d' \<Longrightarrow> keys d' = keys d"
    by (simp add: pointwise_def keys_def)
qed


lemma solved_count_le_length: "solved_count d \<le> length (items_of d)"
  by (simp add: solved_count_def)

lemma contracts_solved_count: "contracts d d' \<Longrightarrow> solved_count d \<le> solved_count d'"
proof -
  have "list_all2 (\<lambda>p p'. fst p' = fst p \<and> narrows (snd p) (snd p')) xs ys \<Longrightarrow>
        length (filter (\<lambda>(box, digits). length digits = 1) xs)
        \<le> length (filter (\<lambda>(box, digits). length digits = 1) ys)" for xs ys :: items
    by (induction xs ys rule: list_all2_induct) (auto dest: narrows_solved)
  then show "contracts d d' \<Longrightarrow> solved_count d \<le> solved_count d'"
    by (simp add: pointwise_def solved_count_def)
qed

lemma contracts_total_len: "contracts d d' \<Longrightarrow> total_len d' \<le> total_len d"
proof -
  have "list_all2 (\<lambda>p p'. fst p' = fst p \<and> narrows (snd p) (snd p')) xs ys \<Longrightarrow>
        sum_list (map (\<lambda>p. length (snd p)) ys) \<le> sum_list (map (\<lambda>p. length (snd p)) xs)"
    for xs ys :: items
    by (induction xs ys rule: list_all2_induct) (auto simp: narrows_def)
  then show "contracts d d' \<Longrightarrow> total_len d' \<le> total_len d"
    by (simp add: pointwise_def total_len_def)
qed

lemma pass_contracts:
  "eliminate po d = Inr (RetValues d1) \<Longrightarrow> only_choice d1 = Inr d2 \<Longrightarrow> contracts d d2"
  using eliminate_contracts[of po d "RetValues d1"] only_choice_contracts[of d1 d2]
  by (auto intro: contracts_trans)

termination reduce_puzzle
proof (relation "measure (\<lambda>(po, d). length (items_of d) - solved_count d)")
  show "wf (measure (\<lambda>(po, d). length (items_of d) - solved_count d))" by simp
next
  fix peer_order vals solved_count_old x2 x2a x2b solved_count_new
  assume a: "eliminate peer_order vals = Inr x2" "x2 = RetValues x2a"
    "only_choice x2a = Inr x2b" "solved_count_old = solved_count vals"
    "solved_count_new = solved_count x2b" "solved_count_new \<noteq> solved_count_old"
  from a have c: "contracts vals x2b" by (auto intro: pass_contracts)
  from contracts_solved_count[OF c] contracts_length[OF c] solved_count_le_length[of x2b] a
  show "((peer_order, x2b), peer_order, vals)
        \<in> measure (\<lambda>(po, d). length (items_of d) - solved_count d)"
    by simp
qed


declare reduce_puzzle.simps [simp del]

lemma reduce_puzzle_contracts:
  "reduce_puzzle po d = Inr (PyDict d') \<Longrightarrow> contracts d d'"
proof (induction po d rule: reduce_puzzle.induct)
  case (1 po d)
  from "1.prems" obtain d1 d2 where e: "eliminate po d = Inr (RetValues d1)"
    and t1: "truthy (PyDict d1)" and o: "only_choice d1 = Inr d2" and t2: "truthy (PyDict d2)"
    by (subst (asm) reduce_puzzle.simps)
       (auto simp: Let_def split: sum.splits outcome.splits if_splits)
  have c: "contracts d d2" using e o by (rule pass_contracts)
  show ?case
  proof (cases "solved_count d2 = solved_count d")
    case True
    with "1.prems" e t1 o t2 have "d' = d2"
      by (subst (asm) reduce_puzzle.simps) (simp add: Let_def)
    with c show ?thesis by simp
  next
    case False
    with "1.prems" e t1 o t2 have r: "reduce_puzzle po d2 = Inr (PyDict d')"
      by (subst (asm) reduce_puzzle.simps) (simp add: Let_def)
    have "contracts d2 d'"
      using "1.IH"[OF refl e refl] t1 o t2 False r by simp
    with c show ?thesis by (rule contracts_trans)
  qed
qed

lemma unsolved_pairs_mem:
  "unsolved_pairs d bs = Inr ps \<Longrightarrow> (b, n) \<in> set ps \<Longrightarrow>
   \<exists>v. getitem d b = Inr v \<and> length v > 1 \<and> n = length v \<and> b \<in> set bs"
  by (induction bs arbitrary: ps) (auto split: sum.splits if_splits)

lemma fold_min_mem: "fold min xs (x::'a::linorder) \<in> set (x # xs)"
  by (induction xs arbitrary: x) (auto simp: min_def)

lemma py_min_mem: "py_min xs = Inr m \<Longrightarrow> m \<in> set xs"
  using fold_min_mem by (cases xs) auto

lemma update_total_len:
  "map_of al k = Some v \<Longrightarrow>
   sum_list (map (\<lambda>p. length (snd p)) (AList.update k v' al)) + length v
   = sum_list (map (\<lambda>p. length (snd p)) al) + length v'"
  by (induction al) auto

termination search
proof (relation "measure (\<lambda>(po, d). total_len d)")
  show "wf (measure (\<lambda>(po, d). total_len d))" by simp
next
  fix peer_order :: "box \<Rightarrow> box list" and vals x2 x3 x2a x2b x2c x y x2d xa x2e
  assume a: "reduce_puzzle peer_order vals = Inr x2" "x2 = PyDict x3"
    "unsolved_pairs x3 boxes = Inr x2b" "py_min x2b = Inr x2c" "(x, y) = x2c"
    "getitem x3 x = Inr x2d" "xa \<in> set x2d" "setitem (copy x3) x [xa] = Inr x2e"
  from a have c: "total_len x3 \<le> total_len vals"
    by (auto dest!: reduce_puzzle_contracts contracts_total_len)
  from a have "(x, y) \<in> set x2b" by (auto dest: py_min_mem)
  with a unsolved_pairs_mem[of x3 boxes x2b x y] have l: "length x2d > 1" by auto
  from a have "items_of x2e = AList.update x [xa] (items_of x3)"
    by (auto dest: setitem_items simp: copy_def)
  with update_total_len[of "items_of x3" x x2d "[xa]"] a
  have "total_len x2e + length x2d = total_len x3 + 1"
    by (simp add: total_len_def getitem_Inr)
  with l c show "((peer_order, x2e), peer_order, vals) \<in> measure (\<lambda>(po, d). total_len d)"
    by simp
qed

declare search.simps [simp del]

subsection \<open>Reading a dict that has shrunk\<close>

lemma list_all2_map_of:
  "list_all2 (\<lambda>p p'. fst p' = fst p \<and> R (snd p) (snd p')) xs ys \<Longrightarrow> map_of xs k = Some v \<Longrightarrow>
   \<exists>v'. map_of ys k = Some v' \<and> R v v'"
  by (induction xs ys rule: list_all2_induct) (auto split: if_splits)

lemma pointwise_getitem:
  "pointwise R d d' \<Longrightarrow> getitem d k = Inr v \<Longrightarrow> \<exists>v'. getitem d' k = Inr v' \<and> R v v'"
  unfolding pointwise_def getitem_Inr by (rule list_all2_map_of)

lemma contracts_nonempty: "contracts d d' \<Longrightarrow> nonempty_values d \<Longrightarrow> nonempty_values d'"
proof -
  have "list_all2 (\<lambda>p p'. fst p' = fst p \<and> narrows (snd p) (snd p')) xs ys \<Longrightarrow>
        \<forall>p \<in> set xs. snd p \<noteq> [] \<Longrightarrow> \<forall>p \<in> set ys. snd p \<noteq> []" for xs ys :: items
    by (induction xs ys rule: list_all2_induct) (auto simp: narrows_def)
  then show "contracts d d' \<Longrightarrow> nonempty_values d \<Longrightarrow> nonempty_values d'"
    by (simp add: pointwise_def nonempty_values_def)
qed

subsection \<open>Where elimination stops\<close>

lemma eliminate_peers_append:
  "eliminate_peers c (xs @ ys) d =
     (case eliminate_peers c xs d of
        Inr (RetValues s) \<Rightarrow> eliminate_peers c ys s
      | other \<Rightarrow> other)"
  by (induction xs arbitrary: d) (auto simp: Let_def split: sum.splits)

lemma eliminate_boxes_append:
  "eliminate_boxes po (xs @ ys) d =
     (case eliminate_boxes po xs d of
        Inr (RetValues s) \<Rightarrow> eliminate_boxes po ys s
      | other \<Rightarrow> other)"
  by (induction xs arbitrary: d)
     (auto split: sum.splits list.splits option.splits outcome.splits)

lemma eliminate_peers_fails:
  "eliminate_peers c ps d = Inr (RetFalse s) \<longleftrightarrow>
     (\<exists>ps1 p ps2 v. ps = ps1 @ p # ps2 \<and> eliminate_peers c ps1 d = Inr (RetValues s)
        \<and> getitem s p = Inr v \<and> replace_char c v = [])"
proof
  show "eliminate_peers c ps d = Inr (RetFalse s) \<Longrightarrow>
     \<exists>ps1 p ps2 v. ps = ps1 @ p # ps2 \<and> eliminate_peers c ps1 d = Inr (RetValues s)
        \<and> getitem s p = Inr v \<and> replace_char c v = []"
  proof (induction ps arbitrary: d)
    case Nil
    then show ?case by simp
  next
    case (Cons q qs)
    from Cons.prems obtain v where v: "getitem d q = Inr v"
      by (auto split: sum.splits)
    show ?case
    proof (cases "replace_char c v = []")
      case True
      with Cons.prems v have "s = d" by simp
      with v True have "q # qs = [] @ q # qs \<and> eliminate_peers c [] d = Inr (RetValues s)
        \<and> getitem s q = Inr v \<and> replace_char c v = []" by simp
      then show ?thesis by blast
    next
      case False
      with Cons.prems v obtain d' where d': "setitem d q (replace_char c v) = Inr d'"
        and r: "eliminate_peers c qs d' = Inr (RetFalse s)"
        by (auto simp: Let_def split: sum.splits)
      from Cons.IH[OF r] obtain ps1 p ps2 w where
        *: "qs = ps1 @ p # ps2" "eliminate_peers c ps1 d' = Inr (RetValues s)"
           "getitem s p = Inr w" "replace_char c w = []" by blast
      from v False d' * have "q # qs = (q # ps1) @ p # ps2 \<and>
          eliminate_peers c (q # ps1) d = Inr (RetValues s) \<and> getitem s p = Inr w \<and> replace_char c w = []"
        by (simp add: Let_def)
      then show ?thesis by blast
    qed
  qed
next
  assume "\<exists>ps1 p ps2 v. ps = ps1 @ p # ps2 \<and> eliminate_peers c ps1 d = Inr (RetValues s)
        \<and> getitem s p = Inr v \<and> replace_char c v = []"
  then show "eliminate_peers c ps d = Inr (RetFalse s)"
    by (auto simp: eliminate_peers_append)
qed

lemma eliminate_boxes_fails:
  "eliminate_boxes po ks d = Inr (RetFalse s) \<longleftrightarrow>
     (\<exists>ks1 box ks2 c s1. ks = ks1 @ box # ks2 \<and> eliminate_boxes po ks1 d = Inr (RetValues s1)
        \<and> getitem s1 box = Inr [c] \<and> box_peers box \<noteq> None
        \<and> eliminate_peers c (po box) s1 = Inr (RetFalse s))"
proof
  show "eliminate_boxes po ks d = Inr (RetFalse s) \<Longrightarrow>
     \<exists>ks1 box ks2 c s1. ks = ks1 @ box # ks2 \<and> eliminate_boxes po ks1 d = Inr (RetValues s1)
        \<and> getitem s1 box = Inr [c] \<and> box_peers box \<noteq> None
        \<and> eliminate_peers c (po box) s1 = Inr (RetFalse s)"
  proof (induction ks arbitrary: d)
    case Nil
    then show ?case by simp
  next
    case (Cons k ks)
    from Cons.prems obtain v where v: "getitem d k = Inr v"
      by (auto split: sum.splits)
    consider (fail) c where "v = [c]" "box_peers k \<noteq> None" "eliminate_peers c (po k) d = Inr (RetFalse s)"
      | (go) d' where "eliminate_boxes po ks d' = Inr (RetFalse s)"
          "eliminate_boxes po [k] d = Inr (RetValues d')"
      using Cons.prems v
      by (auto split: sum.splits list.splits option.splits outcome.splits)
    then show ?case
    proof cases
      case fail
      with v have "k # ks = [] @ k # ks \<and> eliminate_boxes po [] d = Inr (RetValues d)
        \<and> getitem d k = Inr [c] \<and> box_peers k \<noteq> None
        \<and> eliminate_peers c (po k) d = Inr (RetFalse s)" by simp
      then show ?thesis by blast
    next
      case go
      from Cons.IH[OF go(1)] obtain ks1 box ks2 c s1 where
        *: "ks = ks1 @ box # ks2" "eliminate_boxes po ks1 d' = Inr (RetValues s1)"
           "getitem s1 box = Inr [c]" "box_peers box \<noteq> None"
           "eliminate_peers c (po box) s1 = Inr (RetFalse s)" by blast
      have "eliminate_boxes po (k # ks1) d = Inr (RetValues s1)"
        using eliminate_boxes_append[of po "[k]" ks1 d] go(2) *(2) by simp
      with * have "k # ks = (k # ks1) @ box # ks2 \<and> eliminate_boxes po (k # ks1) d = Inr (RetValues s1)
        \<and> getitem s1 box = Inr [c] \<and> box_peers box \<noteq> None
        \<and> eliminate_peers c (po box) s1 = Inr (RetFalse s)" by simp
      then show ?thesis by blast
    qed
  qed
next
  assume "\<exists>ks1 box ks2 c s1. ks = ks1 @ box # ks2 \<and> eliminate_boxes po ks1 d = Inr (RetValues s1)
        \<and> getitem s1 box = Inr [c] \<and> box_peers box \<noteq> None
        \<and> eliminate_peers c (po box) s1 = Inr (RetFalse s)"
  then show "eliminate_boxes po ks d = Inr (RetFalse s)"
    by (auto simp: eliminate_boxes_append)
qed

lemma length_boxes: "length boxes = 81"
  by code_simp

lemma distinct_boxes: "distinct boxes"
  by code_simp

lemma grid_values_keys: "81 \<le> length grid \<Longrightarrow> map fst (grid_values grid) = boxes"
proof -
  assume "81 \<le> length grid"
  then have "map fst (zip boxes grid) = boxes"
    by (simp add: length_boxes map_fst_zip_take)
  then show ?thesis
    by (simp add: grid_values_def boxes_def comp_def)
qed

lemma grid_values_nonempty: "nonempty_values (Dict (grid_values grid))"
  by (auto simp: nonempty_values_def grid_values_def)

lemma clash_facts:
  "keys (Dict (grid_values clash_grid)) = [] @ ''A1'' # tl boxes"
  "getitem (Dict (grid_values clash_grid)) ''A1'' = Inr ''1''"
  "getitem (Dict (grid_values clash_grid)) ''A4'' = Inr ''1''"
  "box_peers ''A1'' \<noteq> None"
  "peer_list ''A1'' = [] @ ''A4'' # tl (peer_list ''A1'')"
  by code_simp+

subsection \<open>No exception on a dict that has every box\<close>

lemma getitem_ok: "k \<in> set (keys d) \<Longrightarrow> \<exists>v. getitem d k = Inr v"
  by (auto simp: keys_def getitem_def weak_map_of_SomeI split: option.splits)

lemma getitem_key: "getitem d k = Inr v \<Longrightarrow> k \<in> set (keys d)"
  by (auto simp: keys_def getitem_Inr dest: map_of_SomeD intro: rev_image_eqI)

lemma eliminate_peers_ok:
  "set ps \<subseteq> set (keys d) \<Longrightarrow> \<exists>r. eliminate_peers c ps d = Inr r"
proof (induction ps arbitrary: d)
  case Nil
  then show ?case by simp
next
  case (Cons p ps)
  then obtain v where v: "getitem d p = Inr v" using getitem_ok[of p d] by auto
  show ?case
  proof (cases "replace_char c v = []")
    case True
    with v show ?thesis by simp
  next
    case False
    from setitem_ok[OF v] obtain d' where d': "setitem d p (replace_char c v) = Inr d'" by blast
    have "keys d' = keys d"
      using setitem_contracts[OF v d' narrows_replace_char[OF False]] by (rule contracts_keys)
    with Cons.prems have "set ps \<subseteq> set (keys d')" by simp
    from Cons.IH[OF this] v False d' show ?thesis by (simp add: Let_def)
  qed
qed

lemma units_in_boxes: "\<forall>u \<in> set units. set u \<subseteq> set boxes"
  by code_simp

lemma box_peers_in_boxes: "box_peers s = Some ps \<Longrightarrow> ps \<subseteq> set boxes"
  using units_in_boxes
  by (auto simp: box_peers_def box_units_def split: if_splits)

lemma enumerates_peers_in_boxes:
  "enumerates_peers po \<Longrightarrow> s \<in> set boxes \<Longrightarrow> set (po s) \<subseteq> set boxes"
  using box_peers_in_boxes[of s "set (po s)"] by (simp add: enumerates_peers_def)

lemma box_peers_Some: "s \<in> set boxes \<Longrightarrow> box_peers s \<noteq> None"
  by (simp add: box_peers_def box_units_def)

lemma eliminate_boxes_ok:
  "enumerates_peers po \<Longrightarrow> set ks \<subseteq> set boxes \<Longrightarrow> set (keys d) = set boxes \<Longrightarrow>
   \<exists>r. eliminate_boxes po ks d = Inr r"
proof (induction ks arbitrary: d)
  case Nil
  then show ?case by simp
next
  case (Cons k ks)
  then obtain v where v: "getitem d k = Inr v" using getitem_ok[of k d] by auto
  show ?case
  proof (cases "\<exists>c. v = [c]")
    case True
    then obtain c where c: "v = [c]" by blast
    have "set (po k) \<subseteq> set (keys d)"
      using enumerates_peers_in_boxes[OF Cons.prems(1), of k] Cons.prems by simp
    from eliminate_peers_ok[OF this] obtain r where r: "eliminate_peers c (po k) d = Inr r" by blast
    have pk: "box_peers k \<noteq> None" using Cons.prems by (simp add: box_peers_Some)
    show ?thesis
    proof (cases r)
      case (RetFalse s)
      with v c r pk show ?thesis by (auto split: option.splits)
    next
      case (RetValues d')
      have "keys d' = keys d"
        using eliminate_peers_contracts[OF r] RetValues by (simp add: contracts_keys)
      with Cons.prems have "set (keys d') = set boxes" by simp
      from Cons.IH[OF Cons.prems(1) _ this] Cons.prems(2) v c r pk RetValues show ?thesis
        by (auto split: option.splits)
    qed
  next
    case False
    from Cons.IH[OF Cons.prems(1) _ Cons.prems(3)] Cons.prems(2)
    obtain r where "eliminate_boxes po ks d = Inr r" by auto
    with v False show ?thesis by (auto split: list.splits)
  qed
qed

lemma eliminate_ok:
  "enumerates_peers po \<Longrightarrow> candidate_map d \<Longrightarrow> \<exists>r. eliminate po d = Inr r"
  unfolding eliminate_def candidate_map_def by (auto intro: eliminate_boxes_ok)

lemma digit_boxes_ok:
  "set u \<subseteq> set (keys d) \<Longrightarrow> \<exists>bs. digit_boxes d c u = Inr bs"
proof (induction u)
  case Nil
  then show ?case by simp
next
  case (Cons b u)
  then obtain v bs where "getitem d b = Inr v" "digit_boxes d c u = Inr bs"
    using getitem_ok[of b d] by auto
  then show ?case by simp
qed

lemma only_choice_digits_ok:
  "set u \<subseteq> set (keys d) \<Longrightarrow> \<exists>d'. only_choice_digits u ds d = Inr d'"
proof (induction ds arbitrary: d)
  case Nil
  then show ?case by simp
next
  case (Cons c ds)
  from digit_boxes_ok[OF Cons.prems] obtain bs where bs: "digit_boxes d c u = Inr bs" by blast
  show ?case
  proof (cases "\<exists>b. bs = [b]")
    case True
    then obtain b where b: "bs = [b]" by blast
    with digit_boxes_sound[OF bs, of b] obtain v where v: "getitem d b = Inr v" "c \<in> set v"
      by auto
    from setitem_ok[OF v(1)] obtain d1 where d1: "setitem d b [c] = Inr d1" by blast
    have "keys d1 = keys d"
      using setitem_contracts[OF v(1) d1 narrows_digit[OF v(2)]] by (rule contracts_keys)
    with Cons.prems have "set u \<subseteq> set (keys d1)" by simp
    from Cons.IH[OF this] bs b d1 show ?thesis by simp
  next
    case False
    from Cons.IH[OF Cons.prems] obtain d' where "only_choice_digits u ds d = Inr d'" by blast
    with bs False show ?thesis by (auto split: list.splits)
  qed
qed

lemma only_choice_units_ok:
  "\<forall>u \<in> set us. set u \<subseteq> set (keys d) \<Longrightarrow> \<exists>d'. only_choice_units us d = Inr d'"
proof (induction us arbitrary: d)
  case Nil
  then show ?case by simp
next
  case (Cons u us)
  then have "set u \<subseteq> set (keys d)" by simp
  from only_choice_digits_ok[OF this] obtain d1 where
    d1: "only_choice_digits u ''123456789'' d = Inr d1" by blast
  have "keys d1 = keys d" using only_choice_digits_contracts[OF d1] by (rule contracts_keys)
  with Cons.prems have "\<forall>u \<in> set us. set u \<subseteq> set (keys d1)" by simp
  from Cons.IH[OF this] d1 show ?case by (simp del: only_choice_digits.simps)
qed

lemma only_choice_ok: "set boxes \<subseteq> set (keys d) \<Longrightarrow> \<exists>d'. only_choice d = Inr d'"
  unfolding only_choice_def using units_in_boxes by (intro only_choice_units_ok) blast

subsection \<open>What only choice writes\<close>

lemma forced_refl: "forced v v"
  by (simp add: forced_def)

lemma forced_trans: "forced a b \<Longrightarrow> forced b c \<Longrightarrow> forced a c"
  by (auto simp: forced_def)

lemma only_choice_digits_forced:
  "only_choice_digits u ds d = Inr d' \<Longrightarrow> pointwise forced d d'"
proof (induction ds arbitrary: d)
  case Nil
  then show ?case by (simp add: pointwise_refl forced_refl)
next
  case (Cons c ds)
  show ?case
  proof (cases "digit_boxes d c u")
    case (Inl e)
    with Cons.prems show ?thesis by simp
  next
    case (Inr bs)
    show ?thesis
    proof (cases "\<exists>b. bs = [b]")
      case True
      then obtain b where bs: "bs = [b]" by blast
      with digit_boxes_sound[OF Inr, of b] obtain v where v: "getitem d b = Inr v" "c \<in> set v"
        by auto
      from setitem_ok[OF v(1)] obtain d1 where d1: "setitem d b [c] = Inr d1" by blast
      from Cons.prems Inr bs d1 have "only_choice_digits u ds d1 = Inr d'" by simp
      then have "pointwise forced d1 d'" by (rule Cons.IH)
      moreover have "forced v [c]" using v(2) by (auto simp: forced_def)
      then have "pointwise forced d d1"
        using setitem_pointwise[where R = forced, OF v(1) d1] forced_refl by blast
      ultimately show ?thesis using pointwise_trans[where R = forced] forced_trans by blast
    next
      case False
      with Cons.prems Inr have "only_choice_digits u ds d = Inr d'"
        by (auto split: list.splits)
      then show ?thesis by (rule Cons.IH)
    qed
  qed
qed

lemma only_choice_units_forced:
  "only_choice_units us d = Inr d' \<Longrightarrow> pointwise forced d d'"
proof (induction us arbitrary: d)
  case Nil
  then show ?case by (simp add: pointwise_refl forced_refl)
next
  case (Cons u us)
  from Cons.prems obtain d1 where d1: "only_choice_digits u ''123456789'' d = Inr d1"
    and rest: "only_choice_units us d1 = Inr d'"
    by (auto simp del: only_choice_digits.simps split: sum.splits)
  from only_choice_digits_forced[OF d1] Cons.IH[OF rest] show ?case
    using pointwise_trans[where R = forced] forced_trans by blast
qed

lemma only_choice_truthy:
  "only_choice d = Inr d' \<Longrightarrow> truthy (PyDict d) \<Longrightarrow> truthy (PyDict d')"
  using contracts_length[OF only_choice_contracts, of d d'] by auto

subsection \<open>Grids as candidate maps\<close>

lemma length_example_grid: "length example_grid = 81"
  by (simp add: example_grid_def)

lemma grid_values_candidate_map:
  "81 \<le> length grid \<Longrightarrow> candidate_map (Dict (grid_values grid))"
  "81 \<le> length grid \<Longrightarrow> candidate_map (VisualizibleDict (grid_values grid) hist)"
  by (simp_all add: candidate_map_def keys_def grid_values_keys distinct_boxes)

lemma enumerates_peers_peer_list: "enumerates_peers peer_list"
  by (auto simp: enumerates_peers_def peer_list_def box_peers_def box_units_def distinct_removeAll)

lemma contracts_candidate_map: "contracts d d' \<Longrightarrow> candidate_map d \<Longrightarrow> candidate_map d'"
  by (simp add: candidate_map_def contracts_keys)

lemma candidate_map_length: "candidate_map d \<Longrightarrow> length (items_of d) = 81"
proof -
  assume "candidate_map d"
  then have "length (keys d) = card (set boxes)"
    by (metis candidate_map_def distinct_card)
  also have "\<dots> = 81" using distinct_boxes length_boxes by (simp add: distinct_card)
  finally show ?thesis by (simp add: keys_def)
qed

lemma reduce_puzzle_ok:
  "enumerates_peers po \<Longrightarrow> candidate_map d \<Longrightarrow> \<exists>r. reduce_puzzle po d = Inr r"
proof (induction po d rule: reduce_puzzle.induct)
  case (1 po d)
  from eliminate_ok[OF "1.prems"] obtain r where r: "eliminate po d = Inr r" by blast
  show ?case
  proof (cases r)
    case (RetFalse s)
    with r show ?thesis by (subst reduce_puzzle.simps) simp
  next
    case (RetValues d1)
    have cm1: "candidate_map d1"
      using eliminate_contracts[OF r] RetValues "1.prems"(2) by (auto intro: contracts_candidate_map)
    then have "set boxes \<subseteq> set (keys d1)" by (simp add: candidate_map_def)
    from only_choice_ok[OF this] obtain d2 where d2: "only_choice d1 = Inr d2" by blast
    have cm2: "candidate_map d2"
      using only_choice_contracts[OF d2] cm1 by (rule contracts_candidate_map)
    have t1: "truthy (PyDict d1)" and t2: "truthy (PyDict d2)"
      using candidate_map_length[OF cm1] candidate_map_length[OF cm2] by auto
    show ?thesis
    proof (cases "solved_count d2 = solved_count d")
      case True
      with r RetValues d2 t1 t2 show ?thesis
        by (subst reduce_puzzle.simps) (simp add: Let_def)
    next
      case False
      from "1.IH"[OF refl r RetValues _ d2 _ refl] t1 t2 False "1.prems"(1) cm2
      obtain r' where "reduce_puzzle po d2 = Inr r'" by auto
      with r RetValues d2 t1 t2 False show ?thesis
        by (subst reduce_puzzle.simps) (simp add: Let_def)
    qed
  qed
qed

subsection \<open>The last pass of the reduction, and what elimination has removed\<close>

lemma reduce_puzzle_last_pass:
  "reduce_puzzle po d = Inr (PyDict r) \<Longrightarrow>
   \<exists>d0 d1. contracts d d0 \<and> eliminate po d0 = Inr (RetValues d1) \<and> only_choice d1 = Inr r
      \<and> solved_count r = solved_count d0"
proof (induction po d rule: reduce_puzzle.induct)
  case (1 po d)
  from "1.prems" obtain d1 d2 where e: "eliminate po d = Inr (RetValues d1)"
    and t1: "truthy (PyDict d1)" and o: "only_choice d1 = Inr d2" and t2: "truthy (PyDict d2)"
    by (subst (asm) reduce_puzzle.simps)
       (auto simp: Let_def split: sum.splits outcome.splits if_splits)
  show ?case
  proof (cases "solved_count d2 = solved_count d")
    case True
    with "1.prems" e t1 o t2 have "r = d2"
      by (subst (asm) reduce_puzzle.simps) (simp add: Let_def)
    with e o True contracts_refl[of d] show ?thesis by blast
  next
    case False
    with "1.prems" e t1 o t2 have r: "reduce_puzzle po d2 = Inr (PyDict r)"
      by (subst (asm) reduce_puzzle.simps) (simp add: Let_def)
    from "1.IH"[OF refl e refl _ o _ refl] t1 t2 False r
    obtain d0 d1' where *: "contracts d2 d0" "eliminate po d0 = Inr (RetValues d1')"
      "only_choice d1' = Inr r" "solved_count r = solved_count d0" by auto
    have "contracts d d0" using pass_contracts[OF e o] *(1) by (rule contracts_trans)
    with * show ?thesis by blast
  qed
qed

lemma solved_filter_mono:
  "list_all2 (\<lambda>p p'. fst p' = fst p \<and> narrows (snd p) (snd p')) xs ys \<Longrightarrow>
   length (filter (\<lambda>p. length (snd p) = 1) xs) \<le> length (filter (\<lambda>p. length (snd p) = 1) ys)"
  for xs ys :: items
proof (induction xs ys rule: list_all2_induct)
  case Nil
  then show ?case by simp
next
  case (Cons x xs y ys)
  have "length (snd x) = 1 \<Longrightarrow> length (snd y) = 1"
    using Cons.hyps(1) narrows_solved[of "snd x" "snd y"] by simp
  with Cons.IH show ?case by simp
qed

lemma same_count_same_solved:
  "list_all2 (\<lambda>p p'. fst p' = fst p \<and> narrows (snd p) (snd p')) xs ys \<Longrightarrow>
   length (filter (\<lambda>p. length (snd p) = 1) ys) = length (filter (\<lambda>p. length (snd p) = 1) xs) \<Longrightarrow>
   list_all2 (\<lambda>p p'. fst p' = fst p \<and> (length (snd p') = 1 \<longrightarrow> snd p = snd p')) xs ys"
  for xs ys :: items
proof (induction xs ys rule: list_all2_induct)
  case Nil
  then show ?case by simp
next
  case (Cons x xs y ys)
  have mono: "length (filter (\<lambda>p. length (snd p) = 1) xs)
      \<le> length (filter (\<lambda>p. length (snd p) = 1) ys)"
    using Cons.hyps(2) by (rule solved_filter_mono)
  have fst: "fst y = fst x" using Cons.hyps(1) by simp
  show ?case
  proof (cases "length (snd x) = 1")
    case True
    then have eq: "snd y = snd x"
      using Cons.hyps(1) narrows_solved[of "snd x" "snd y"] by simp
    with True Cons.prems have "length (filter (\<lambda>p. length (snd p) = 1) ys)
        = length (filter (\<lambda>p. length (snd p) = 1) xs)" by simp
    from Cons.IH[OF this] fst eq show ?thesis by simp
  next
    case False
    show ?thesis
    proof (cases "length (snd y) = 1")
      case True
      with False Cons.prems have "Suc (length (filter (\<lambda>p. length (snd p) = 1) ys))
        = length (filter (\<lambda>p. length (snd p) = 1) xs)" by simp
      with mono show ?thesis by simp
    next
      case ny: False
      with False Cons.prems have "length (filter (\<lambda>p. length (snd p) = 1) ys)
        = length (filter (\<lambda>p. length (snd p) = 1) xs)" by simp
      from Cons.IH[OF this] fst ny show ?thesis by simp
    qed
  qed
qed

lemma list_all2_map_of_rev:
  "list_all2 (\<lambda>p p'. fst p' = fst p \<and> R (snd p) (snd p')) xs ys \<Longrightarrow> map_of ys k = Some v' \<Longrightarrow>
   \<exists>v. map_of xs k = Some v \<and> R v v'"
  by (induction xs ys rule: list_all2_induct) (auto split: if_splits)

lemma fixed_pass_solved:
  assumes c: "contracts d0 r" and n: "solved_count r = solved_count d0"
    and g: "getitem r k = Inr [c]"
  shows "getitem d0 k = Inr [c]"
proof -
  have "list_all2 (\<lambda>p p'. fst p' = fst p \<and> (length (snd p') = 1 \<longrightarrow> snd p = snd p'))
          (items_of d0) (items_of r)"
    using c n unfolding pointwise_def solved_count_def case_prod_beta
    by (rule same_count_same_solved)
  from list_all2_map_of_rev[where R = "\<lambda>v v'. length v' = 1 \<longrightarrow> v = v'", OF this, of k "[c]"] g
  show ?thesis by (simp add: getitem_Inr)
qed

lemma setitem_getitem:
  "setitem d k v = Inr d' \<Longrightarrow> getitem d' k = Inr v"
  using setitem_items[of d k v d'] by (simp add: getitem_Inr update_conv')

lemma eliminate_peers_removed:
  "eliminate_peers c ps d = Inr (RetValues d') \<Longrightarrow> p \<in> set ps \<Longrightarrow>
   \<exists>v. getitem d' p = Inr v \<and> c \<notin> set v"
proof (induction ps arbitrary: d)
  case Nil
  then show ?case by simp
next
  case (Cons q qs)
  from Cons.prems(1) obtain v d1 where v: "getitem d q = Inr v"
    and ne: "replace_char c v \<noteq> []"
    and d1: "setitem d q (replace_char c v) = Inr d1"
    and rest: "eliminate_peers c qs d1 = Inr (RetValues d')"
    by (auto simp: Let_def split: sum.splits if_splits)
  show ?case
  proof (cases "p \<in> set qs")
    case True
    from Cons.IH[OF rest True] show ?thesis .
  next
    case False
    with Cons.prems(2) have "p = q" by simp
    with setitem_getitem[OF d1] have "getitem d1 p = Inr (replace_char c v)" by simp
    from pointwise_getitem[OF eliminate_peers_contracts[OF rest] this]
    obtain v' where "getitem d' p = Inr v'" "narrows (replace_char c v) v'" by auto
    then show ?thesis by (auto simp: narrows_def replace_char_def)
  qed
qed

lemma contracts_solved_getitem:
  "contracts d d' \<Longrightarrow> getitem d k = Inr [c] \<Longrightarrow> getitem d' k = Inr [c]"
  using pointwise_getitem[of narrows d d' k "[c]"] narrows_solved[of "[c]"] by auto

lemma eliminate_boxes_removed:
  "eliminate_boxes po ks d = Inr (RetValues d') \<Longrightarrow> b \<in> set ks \<Longrightarrow> getitem d b = Inr [c] \<Longrightarrow>
   p \<in> set (po b) \<Longrightarrow> \<exists>v. getitem d' p = Inr v \<and> c \<notin> set v"
proof (induction ks arbitrary: d)
  case Nil
  then show ?case by simp
next
  case (Cons k ks)
  from Cons.prems(1) obtain d1 where one: "eliminate_boxes po [k] d = Inr (RetValues d1)"
    and rest: "eliminate_boxes po ks d1 = Inr (RetValues d')"
    using eliminate_boxes_append[of po "[k]" ks d]
    by (auto split: sum.splits outcome.splits)
  have c1: "contracts d d1" using eliminate_boxes_contracts[OF one] by simp
  show ?case
  proof (cases "b \<in> set ks")
    case True
    from Cons.IH[OF rest True contracts_solved_getitem[OF c1 Cons.prems(3)] Cons.prems(4)]
    show ?thesis .
  next
    case False
    with Cons.prems(2) have "b = k" by simp
    with one Cons.prems(3) have "eliminate_peers c (po b) d = Inr (RetValues d1)"
      by (auto split: option.splits sum.splits outcome.splits)
    from eliminate_peers_removed[OF this Cons.prems(4)]
    obtain v where v: "getitem d1 p = Inr v" "c \<notin> set v" by blast
    from pointwise_getitem[OF eliminate_boxes_contracts[OF rest] v(1)] v(2)
    show ?thesis by (auto simp: narrows_def)
  qed
qed

subsection \<open>Units of a grid whose peers differ\<close>

lemma any_unsolved_False:
  "any_unsolved d bs = Inr False \<Longrightarrow> b \<in> set bs \<Longrightarrow> \<exists>c. getitem d b = Inr [c]"
proof (induction bs)
  case Nil
  then show ?case by simp
next
  case (Cons a bs)
  from Cons.prems(1) obtain v where v: "getitem d a = Inr v" "length v = 1"
    and rest: "any_unsolved d bs = Inr False"
    by (auto split: sum.splits if_splits)
  from v(2) obtain c where "v = [c]" by (cases v) auto
  with v Cons.IH[OF rest] Cons.prems(2) show ?case by auto
qed

lemma contracts_digit_values: "contracts d d' \<Longrightarrow> digit_values d \<Longrightarrow> digit_values d'"
proof -
  have "list_all2 (\<lambda>p p'. fst p' = fst p \<and> narrows (snd p) (snd p')) xs ys \<Longrightarrow>
        \<forall>p \<in> set xs. set (snd p) \<subseteq> D \<Longrightarrow> \<forall>p \<in> set ys. set (snd p) \<subseteq> D"
    for xs ys :: items and D
    by (induction xs ys rule: list_all2_induct) (auto simp: narrows_def)
  then show "contracts d d' \<Longrightarrow> digit_values d \<Longrightarrow> digit_values d'"
    unfolding pointwise_def digit_values_def by blast
qed

lemma digit_values_getitem:
  "digit_values d \<Longrightarrow> getitem d b = Inr v \<Longrightarrow> set v \<subseteq> set ''123456789''"
  unfolding digit_values_def getitem_Inr
  by (metis map_of_SomeD snd_conv)

lemma units_shape: "\<forall>u \<in> set units. distinct u \<and> length u = 9"
  by code_simp

lemma unit_peers:
  assumes "enumerates_peers po" "u \<in> set units" "b \<in> set u" "p \<in> set u" "p \<noteq> b"
  shows "p \<in> set (po b)"
proof -
  from assms(2,3) units_in_boxes have b: "b \<in> set boxes" by blast
  with assms(1) have "box_peers b = Some (set (po b))" by (simp add: enumerates_peers_def)
  moreover from b assms(2-5) have "box_peers b = Some (set (concat (filter (\<lambda>u. b \<in> set u) units)) - {b})"
    by (simp add: box_peers_def box_units_def)
  ultimately have "set (po b) = set (concat (filter (\<lambda>u. b \<in> set u) units)) - {b}" by simp
  with assms(2-5) show ?thesis by auto
qed

lemma last_pass_peers_differ:
  assumes e: "eliminate po d0 = Inr (RetValues d1)" and o: "only_choice d1 = Inr r"
    and n: "solved_count r = solved_count d0"
    and b: "getitem r b = Inr [c]" and p: "getitem r p = Inr [c']" and pb: "p \<in> set (po b)"
  shows "c \<noteq> c'"
proof -
  have c0: "contracts d0 r" using e o by (rule pass_contracts)
  have b0: "getitem d0 b = Inr [c]" using c0 n b by (rule fixed_pass_solved)
  have p0: "getitem d0 p = Inr [c']" using c0 n p by (rule fixed_pass_solved)
  have "b \<in> set (keys d0)" using b0 by (rule getitem_key)
  with e b0 pb obtain v where v: "getitem d1 p = Inr v" "c \<notin> set v"
    unfolding eliminate_def using eliminate_boxes_removed by blast
  have "contracts d0 d1" using eliminate_contracts[OF e] by simp
  from contracts_solved_getitem[OF this p0] v show ?thesis by auto
qed

lemma distinct_digits: "distinct ''123456789''"
  by code_simp

lemma exactly_once:
  assumes d: "distinct u" and l: "length u = 9"
    and dig: "\<And>b. b \<in> set u \<Longrightarrow> f b \<in> set ''123456789''"
    and inj: "inj_on f (set u)" and c: "c \<in> set ''123456789''"
  shows "length (filter (\<lambda>b. f b = c) u) = 1"
proof -
  have "card (f ` set u) = 9" using inj d l by (simp add: card_image distinct_card)
  moreover have sub: "f ` set u \<subseteq> set ''123456789''" using dig by blast
  moreover have "card (set ''123456789'') = length ''123456789''"
    using distinct_digits by (rule distinct_card)
  ultimately have "card (set ''123456789'') \<le> card (f ` set u)" by simp
  with sub have "f ` set u = set ''123456789''"
    by (intro card_seteq) simp_all
  with c obtain b where b: "b \<in> set u" "f b = c" by (metis imageE)
  have "{x. f x = c} \<inter> set u = {b}"
  proof
    show "{x. f x = c} \<inter> set u \<subseteq> {b}" using b inj by (auto dest: inj_onD)
    show "{b} \<subseteq> {x. f x = c} \<inter> set u" using b by simp
  qed
  then have "card ({x. f x = c} \<inter> set u) = 1" by simp
  with d show ?thesis by (simp add: distinct_length_filter)
qed

subsection \<open>What the search returns\<close>

lemma last_pass_solved_grid:
  assumes po: "enumerates_peers po"
    and e: "eliminate po d0 = Inr (RetValues d1)" and o: "only_choice d1 = Inr r"
    and n: "solved_count r = solved_count d0"
    and all: "any_unsolved r boxes = Inr False" and dv: "digit_values r"
  shows "solved_grid r"
proof -
  have solved: "\<exists>c. getitem r b = Inr [c]" if "b \<in> set boxes" for b
    using any_unsolved_False[OF all that] .
  define f where "f b = hd (projr (getitem r b))" for b
  have f: "getitem r b = Inr [f b]" if "b \<in> set boxes" for b
    using solved[OF that] by (auto simp: f_def)
  have fd: "f b \<in> set ''123456789''" if "b \<in> set boxes" for b
    using digit_values_getitem[OF dv f[OF that]] by simp
  have box: "\<exists>digit \<in> set ''123456789''. getitem r b = Inr [digit]" if "b \<in> set boxes" for b
    using f[OF that] fd[OF that] by blast
  have unit: "length (filter (\<lambda>b. getitem r b = Inr [c]) u) = 1"
    if u: "u \<in> set units" and c: "c \<in> set ''123456789''" for u c
  proof -
    from u units_in_boxes have ub: "set u \<subseteq> set boxes" by blast
    from u units_shape have du: "distinct u" "length u = 9" by auto
    have inj: "inj_on f (set u)"
    proof (rule inj_onI)
      fix x y assume x: "x \<in> set u" and y: "y \<in> set u" and eq: "f x = f y"
      show "x = y"
      proof (rule ccontr)
        assume "x \<noteq> y"
        then have "y \<in> set (po x)" using unit_peers[OF po u x y] by auto
        from last_pass_peers_differ[OF e o n f[of x] f[of y] this] x y ub eq
        show False by auto
      qed
    qed
    have "length (filter (\<lambda>b. f b = c) u) = 1"
      using exactly_once[OF du _ inj c] fd ub by blast
    moreover have "filter (\<lambda>b. getitem r b = Inr [c]) u = filter (\<lambda>b. f b = c) u"
      using f ub by (intro filter_cong) auto
    ultimately show ?thesis by simp
  qed
  show ?thesis unfolding solved_grid_def using box unit by blast
qed

lemma first_truthy_found:
  "first_truthy body xs = Inr (PyDict r) \<Longrightarrow> \<exists>x \<in> set xs. body x = Inr (PyDict r)"
  by (induction xs) (auto split: sum.splits if_splits)

lemma contracts_copy: "contracts d (copy d)"
  by (simp add: copy_def pointwise_def list_all2_refl narrows_refl)

lemma search_sound:
  "search po d = Inr (PyDict r) \<Longrightarrow> enumerates_peers po \<Longrightarrow> digit_values d \<Longrightarrow>
   solved_grid r \<and> contracts d r"
proof (induction po d rule: search.induct)
  case (1 po d)
  from "1.prems"(1) obtain d1 where red: "reduce_puzzle po d = Inr (PyDict d1)"
    and t: "truthy (PyDict d1)"
    by (subst (asm) search.simps) (auto split: sum.splits pyval.splits if_splits)
  have c1: "contracts d d1" using red by (rule reduce_puzzle_contracts)
  have dv1: "digit_values d1" using c1 "1.prems"(3) by (rule contracts_digit_values)
  from "1.prems"(1) red t obtain a where a: "any_unsolved d1 boxes = Inr a"
    by (subst (asm) search.simps) (auto split: sum.splits)
  show ?case
  proof (cases a)
    case False
    with "1.prems"(1) red t a have "r = d1"
      by (subst (asm) search.simps) simp
    moreover from reduce_puzzle_last_pass[OF red] obtain d0 d' where
      lp: "eliminate po d0 = Inr (RetValues d')" "only_choice d' = Inr d1"
      "solved_count d1 = solved_count d0" by blast
    from a False have "any_unsolved d1 boxes = Inr False" by simp
    then have "solved_grid d1"
      using last_pass_solved_grid[OF "1.prems"(2) lp _ dv1] by simp
    ultimately show ?thesis using c1 by simp
  next
    case True
    with "1.prems"(1) red t a obtain pairs box n vs where
      pairs: "unsolved_pairs d1 boxes = Inr pairs" and m: "py_min pairs = Inr (box, n)"
      and vs: "getitem d1 box = Inr vs"
      and ft: "first_truthy (\<lambda>value. case setitem (copy d1) box [value] of
                  Inl e \<Rightarrow> Inl e | Inr new_sudoku \<Rightarrow> search po new_sudoku) vs = Inr (PyDict r)"
      by (subst (asm) search.simps) (auto split: sum.splits prod.splits)
    from first_truthy_found[OF ft] obtain v where v: "v \<in> set vs"
      and body: "(case setitem (copy d1) box [v] of
                  Inl e \<Rightarrow> Inl e | Inr new_sudoku \<Rightarrow> search po new_sudoku) = Inr (PyDict r)"
      by blast
    then obtain new where new: "setitem (copy d1) box [v] = Inr new"
      and s: "search po new = Inr (PyDict r)"
      by (cases "setitem (copy d1) box [v]") auto
    have "getitem (copy d1) box = Inr vs" using vs by (simp add: copy_def getitem_def)
    from setitem_contracts[OF this new narrows_digit[OF v]] have cn: "contracts (copy d1) new" .
    have c2: "contracts d new"
      using c1 contracts_copy[of d1] cn by (blast intro: contracts_trans)
    have dvn: "digit_values new" using c2 "1.prems"(3) by (rule contracts_digit_values)
    have "solved_grid r \<and> contracts new r"
      using "1.IH"[OF red refl _ a _ pairs m refl vs v new s "1.prems"(2) dvn] t True by simp
    with c2 show ?thesis by (blast intro: contracts_trans)
  qed
qed

subsection \<open>A solved grid is returned as it is\<close>

lemma setitem_same: "getitem d k = Inr v \<Longrightarrow> setitem d k v = Inr d"
  by (cases d) (auto simp: getitem_Inr update_triv)

lemma eliminate_peers_unchanged:
  "\<forall>p \<in> set ps. \<exists>v. getitem d p = Inr v \<and> c \<notin> set v \<and> v \<noteq> [] \<Longrightarrow>
   eliminate_peers c ps d = Inr (RetValues d)"
proof (induction ps)
  case Nil
  then show ?case by simp
next
  case (Cons p ps)
  then obtain v where v: "getitem d p = Inr v" "c \<notin> set v" "v \<noteq> []" by auto
  then have r: "replace_char c v = v" by (auto simp: replace_char_def intro: filter_True)
  from Cons v r setitem_same[OF v(1)] show ?case by (simp add: Let_def)
qed

lemma eliminate_boxes_unchanged:
  assumes "\<forall>k \<in> set ks. \<exists>v. getitem d k = Inr v \<and>
      (\<forall>c. v = [c] \<longrightarrow> box_peers k \<noteq> None \<and>
         (\<forall>p \<in> set (po k). \<exists>w. getitem d p = Inr w \<and> c \<notin> set w \<and> w \<noteq> []))"
  shows "eliminate_boxes po ks d = Inr (RetValues d)"
  using assms
proof (induction ks)
  case Nil
  then show ?case by simp
next
  case (Cons k ks)
  then obtain v where v: "getitem d k = Inr v"
    and solved: "\<And>c. v = [c] \<Longrightarrow> box_peers k \<noteq> None \<and>
         (\<forall>p \<in> set (po k). \<exists>w. getitem d p = Inr w \<and> c \<notin> set w \<and> w \<noteq> [])"
    by auto
  have rest: "eliminate_boxes po ks d = Inr (RetValues d)" using Cons by simp
  show ?case
  proof (cases "\<exists>c. v = [c]")
    case True
    then obtain c where c: "v = [c]" by blast
    from solved[OF c] eliminate_peers_unchanged[of "po k" d c]
    have "box_peers k \<noteq> None" "eliminate_peers c (po k) d = Inr (RetValues d)" by auto
    with v c rest show ?thesis by (auto split: option.splits)
  next
    case False
    with v rest show ?thesis by (auto split: list.splits)
  qed
qed

lemma only_choice_digits_unchanged:
  assumes "\<forall>b \<in> set u. \<exists>c. getitem d b = Inr [c]"
  shows "only_choice_digits u ds d = Inr d"
proof (induction ds)
  case Nil
  then show ?case by simp
next
  case (Cons c ds)
  have "set u \<subseteq> set (keys d)" using assms getitem_key by blast
  from digit_boxes_ok[OF this] obtain bs where bs: "digit_boxes d c u = Inr bs" by blast
  show ?case
  proof (cases "\<exists>b. bs = [b]")
    case True
    then obtain b where b: "bs = [b]" by blast
    with digit_boxes_sound[OF bs, of b] obtain v where v: "getitem d b = Inr v" "c \<in> set v"
      by auto
    have "b \<in> set u" using bs b
    proof -
      have "digit_boxes d c u = Inr bs \<Longrightarrow> set bs \<subseteq> set u" for bs
        by (induction u arbitrary: bs) (auto split: sum.splits if_splits)
      with bs b show ?thesis by auto
    qed
    with assms obtain c' where "getitem d b = Inr [c']" by blast
    with v have "v = [c]" by auto
    with v setitem_same[of d b "[c]"] have "setitem d b [c] = Inr d" by simp
    with bs b Cons show ?thesis by simp
  next
    case False
    with bs Cons show ?thesis by (auto split: list.splits)
  qed
qed

lemma only_choice_units_unchanged:
  "\<forall>u \<in> set us. \<forall>b \<in> set u. \<exists>c. getitem d b = Inr [c] \<Longrightarrow> only_choice_units us d = Inr d"
proof (induction us)
  case Nil
  then show ?case by simp
next
  case (Cons u us)
  then have "only_choice_digits u ''123456789'' d = Inr d"
    by (intro only_choice_digits_unchanged) simp
  with Cons show ?case by (simp del: only_choice_digits.simps)
qed

lemma solved_grid_peers_differ:
  assumes po: "enumerates_peers po" and sg: "solved_grid d"
    and b: "b \<in> set boxes" and p: "p \<in> set (po b)" and gb: "getitem d b = Inr [c]"
  shows "\<exists>w. getitem d p = Inr w \<and> c \<notin> set w \<and> w \<noteq> []"
proof -
  from po b have "box_peers b = Some (set (po b))" by (simp add: enumerates_peers_def)
  with b p obtain u where u: "u \<in> set units" "b \<in> set u" "p \<in> set u" and ne: "p \<noteq> b"
    by (auto simp: box_peers_def box_units_def)
  from u units_in_boxes have "p \<in> set boxes" by blast
  with sg obtain c' where c': "getitem d p = Inr [c']" "c' \<in> set ''123456789''"
    unfolding solved_grid_def by blast
  from sg b gb have cd: "c \<in> set ''123456789''" unfolding solved_grid_def by fastforce
  have "c' \<noteq> c"
  proof
    assume "c' = c"
    with c' gb u ne have "{b, p} \<subseteq> set (filter (\<lambda>x. getitem d x = Inr [c]) u)" by simp
    moreover from u units_shape have "distinct (filter (\<lambda>x. getitem d x = Inr [c]) u)" by simp
    ultimately have "2 \<le> length (filter (\<lambda>x. getitem d x = Inr [c]) u)"
      using ne by (metis card_2_iff card_mono distinct_card List.finite_set)
    moreover from sg u cd have "length (filter (\<lambda>x. getitem d x = Inr [c]) u) = 1"
      unfolding solved_grid_def by blast
    ultimately show False by simp
  qed
  with c' show ?thesis by auto
qed

lemma any_unsolved_all_solved:
  "\<forall>b \<in> set bs. \<exists>c. getitem d b = Inr [c] \<Longrightarrow> any_unsolved d bs = Inr False"
  by (induction bs) auto

lemma solved_grid_returned:
  assumes po: "enumerates_peers po" and k: "set (keys d) = set boxes" and sg: "solved_grid d"
  shows "eliminate po d = Inr (RetValues d)" "only_choice d = Inr d"
    "reduce_puzzle po d = Inr (PyDict d)" "search po d = Inr (PyDict d)"
proof -
  have solved: "\<exists>c. getitem d b = Inr [c]" if "b \<in> set boxes" for b
    using sg that unfolding solved_grid_def by blast
  show e: "eliminate po d = Inr (RetValues d)"
    unfolding eliminate_def
  proof (rule eliminate_boxes_unchanged, intro ballI)
    fix b assume "b \<in> set (keys d)"
    with k have b: "b \<in> set boxes" by simp
    from solved[OF b] obtain c where c: "getitem d b = Inr [c]" by blast
    have "box_peers b \<noteq> None" using b by (rule box_peers_Some)
    with c solved_grid_peers_differ[OF po sg b _ c]
    show "\<exists>v. getitem d b = Inr v \<and>
      (\<forall>c. v = [c] \<longrightarrow> box_peers b \<noteq> None \<and>
         (\<forall>p \<in> set (po b). \<exists>w. getitem d p = Inr w \<and> c \<notin> set w \<and> w \<noteq> []))"
      by auto
  qed
  show o: "only_choice d = Inr d"
    unfolding only_choice_def using units_in_boxes solved
    by (intro only_choice_units_unchanged) blast
  have "keys d \<noteq> []" using k length_boxes by auto
  then have t: "truthy (PyDict d)" by (simp add: keys_def)
  show r: "reduce_puzzle po d = Inr (PyDict d)"
    using e o t by (subst reduce_puzzle.simps) (simp add: Let_def)
  have "any_unsolved d boxes = Inr False" using solved by (intro any_unsolved_all_solved) blast
  with r t show "search po d = Inr (PyDict d)"
    by (subst search.simps) simp
qed

subsection \<open>The example grid, solved\<close>

lemma boxes_in_units: "set boxes \<subseteq> set (concat units)"
proof -
  have "concat row_units = boxes"
    by (simp add: row_units_def boxes_def cross_def)
  then show ?thesis by (auto simp: units_def)
qed

lemma units_distinct_solved_grid:
  assumes "\<forall>u \<in> set units. distinct (map (getitem d) u) \<and>
      set (map (getitem d) u) \<subseteq> set (map (\<lambda>c. Inr [c]) ''123456789'')"
  shows "solved_grid d"
proof -
  define f where "f b = hd (projr (getitem d b))" for b
  have in_unit: "getitem d b = Inr [f b] \<and> f b \<in> set ''123456789''"
    if "u \<in> set units" "b \<in> set u" for u b
  proof -
    from assms that have "getitem d b \<in> set (map (\<lambda>c. Inr [c]) ''123456789'')" by auto
    then obtain c where "c \<in> set ''123456789''" "getitem d b = Inr [c]" by auto
    then show ?thesis by (simp add: f_def)
  qed
  have box: "\<exists>digit \<in> set ''123456789''. getitem d b = Inr [digit]" if "b \<in> set boxes" for b
  proof -
    from that boxes_in_units obtain u where "u \<in> set units" "b \<in> set u" by auto
    from in_unit[OF this] show ?thesis by blast
  qed
  have unit: "length (filter (\<lambda>b. getitem d b = Inr [c]) u) = 1"
    if u: "u \<in> set units" and c: "c \<in> set ''123456789''" for u c
  proof -
    from u units_shape have du: "distinct u" "length u = 9" by auto
    from assms u have "distinct (map (getitem d) u)" by blast
    then have "inj_on (getitem d) (set u)" by (simp add: distinct_map)
    then have inj: "inj_on f (set u)"
      using in_unit[OF u] by (intro inj_onI) (metis inj_onD)
    have "length (filter (\<lambda>b. f b = c) u) = 1"
      using exactly_once[OF du _ inj c] in_unit[OF u] by blast
    moreover have "filter (\<lambda>b. getitem d b = Inr [c]) u = filter (\<lambda>b. f b = c) u"
      using in_unit[OF u] by (intro filter_cong) auto
    ultimately show ?thesis by simp
  qed
  show ?thesis unfolding solved_grid_def using box unit by blast
qed

lemma example_solution_units:
  "\<forall>u \<in> set units. distinct (map (getitem (VisualizibleDict (grid_values example_solution) [])) u) \<and>
      set (map (getitem (VisualizibleDict (grid_values example_solution) [])) u)
        \<subseteq> set (map (\<lambda>c. Inr [c]) ''123456789'')"
  by code_simp

lemma grid_values_digit_values:
  "digit_values (Dict (grid_values grid))" "digit_values (VisualizibleDict (grid_values grid) hist)"
  by (auto simp: digit_values_def grid_values_def)

lemma example_solution_returned:
  "solved_grid (VisualizibleDict (grid_values example_solution) [])"
  "eliminate peer_list (VisualizibleDict (grid_values example_solution) [])
     = Inr (RetValues (VisualizibleDict (grid_values example_solution) []))"
  "solve peer_list example_solution
     = Inr (PyDict (VisualizibleDict (grid_values example_solution) []))"
proof -
  let ?V = "VisualizibleDict (grid_values example_solution) []"
  show sg: "solved_grid ?V" using example_solution_units by (rule units_distinct_solved_grid)
  have "length example_solution = 81" by (simp add: example_solution_def)
  then have k: "set (keys ?V) = set boxes"
    using grid_values_candidate_map(2)[of example_solution "[]"] by (simp add: candidate_map_def)
  from solved_grid_returned[OF enumerates_peers_peer_list k sg]
  show "eliminate peer_list ?V = Inr (RetValues ?V)"
    "solve peer_list example_solution = Inr (PyDict ?V)"
    by (simp_all add: solve_def)
qed

lemma example_solution_A1:
  "getitem (VisualizibleDict (grid_values example_solution) []) ''A1'' = Inr ''2''"
  by code_simp

subsection \<open>No exception in the search\<close>

lemma any_unsolved_ok:
  "set bs \<subseteq> set (keys d) \<Longrightarrow> \<exists>a. any_unsolved d bs = Inr a"
proof (induction bs)
  case Nil
  show ?case by (rule exI[of _ False]) simp
next
  case (Cons b bs)
  then obtain v where v: "getitem d b = Inr v" using getitem_ok[of b d] by auto
  from Cons obtain a where a: "any_unsolved d bs = Inr a" by auto
  show ?case
  proof (cases "length v = 1")
    case True
    with v a show ?thesis by simp
  next
    case False
    with v have "any_unsolved d (b # bs) = Inr True" by simp
    then show ?thesis ..
  qed
qed

lemma any_unsolved_True:
  "any_unsolved d bs = Inr True \<Longrightarrow> \<exists>b \<in> set bs. \<exists>v. getitem d b = Inr v \<and> length v \<noteq> 1"
  by (induction bs) (auto split: sum.splits if_splits)

lemma unsolved_pairs_ok:
  "set bs \<subseteq> set (keys d) \<Longrightarrow> \<exists>ps. unsolved_pairs d bs = Inr ps"
proof (induction bs)
  case Nil
  then show ?case by simp
next
  case (Cons b bs)
  then obtain v ps where "getitem d b = Inr v" "unsolved_pairs d bs = Inr ps"
    using getitem_ok[of b d] by auto
  then show ?case by simp
qed

lemma unsolved_pairs_has:
  "unsolved_pairs d bs = Inr ps \<Longrightarrow> b \<in> set bs \<Longrightarrow> getitem d b = Inr v \<Longrightarrow> 1 < length v \<Longrightarrow>
   (b, length v) \<in> set ps"
  by (induction bs arbitrary: ps) (auto split: sum.splits if_splits)

lemma nonempty_getitem: "nonempty_values d \<Longrightarrow> getitem d b = Inr v \<Longrightarrow> v \<noteq> []"
  unfolding nonempty_values_def getitem_Inr by (metis map_of_SomeD snd_conv)

lemma first_truthy_ok:
  "\<forall>x \<in> set xs. \<exists>r. body x = Inr r \<Longrightarrow> \<exists>r. first_truthy body xs = Inr r"
  by (induction xs) auto

lemma search_ok:
  "enumerates_peers po \<Longrightarrow> candidate_map d \<Longrightarrow> nonempty_values d \<Longrightarrow> \<exists>r. search po d = Inr r"
proof (induction po d rule: search.induct)
  case (1 po d)
  from reduce_puzzle_ok[OF "1.prems"(1,2)] obtain r0 where r0: "reduce_puzzle po d = Inr r0"
    by blast
  show ?case
  proof (cases r0)
    case PyFalse
    with r0 show ?thesis by (subst search.simps) simp
  next
    case PyNone
    with r0 show ?thesis by (subst search.simps) simp
  next
    case (PyDict d1)
    with r0 have red: "reduce_puzzle po d = Inr (PyDict d1)" by simp
    have c1: "contracts d d1" using red by (rule reduce_puzzle_contracts)
    have cm1: "candidate_map d1" using c1 "1.prems"(2) by (rule contracts_candidate_map)
    have ne1: "nonempty_values d1" using c1 "1.prems"(3) by (rule contracts_nonempty)
    have t: "truthy (PyDict d1)" using candidate_map_length[OF cm1] by auto
    have sub: "set boxes \<subseteq> set (keys d1)" using cm1 by (simp add: candidate_map_def)
    from any_unsolved_ok[OF sub] obtain a where a: "any_unsolved d1 boxes = Inr a" by blast
    show ?thesis
    proof (cases a)
      case False
      with red t a show ?thesis by (subst search.simps) simp
    next
      case True
      from unsolved_pairs_ok[OF sub] obtain pairs where
        pairs: "unsolved_pairs d1 boxes = Inr pairs" by blast
      from a True have "any_unsolved d1 boxes = Inr True" by simp
      from any_unsolved_True[OF this] obtain b v where b: "b \<in> set boxes"
        "getitem d1 b = Inr v" "length v \<noteq> 1" by blast
      with nonempty_getitem[OF ne1 b(2)] have "1 < length v" by (cases v) auto
      from unsolved_pairs_has[OF pairs b(1,2) this] have "pairs \<noteq> []" by auto
      then obtain box n where m: "py_min pairs = Inr (box, n)"
        by (cases pairs) (auto intro: prod.exhaust)
      from py_min_mem[OF m] unsolved_pairs_mem[OF pairs] obtain vs where
        vs: "getitem d1 box = Inr vs" by blast
      have cvs: "getitem (copy d1) box = Inr vs" using vs by (simp add: copy_def getitem_def)
      let ?body = "\<lambda>value. case setitem (copy d1) box [value] of
                  Inl e \<Rightarrow> Inl e | Inr new_sudoku \<Rightarrow> search po new_sudoku"
      have "\<exists>r. ?body x = Inr r" if x: "x \<in> set vs" for x
      proof -
        obtain new where new: "setitem (copy d1) box [x] = Inr new" by (simp add: copy_def)
        have cn: "contracts (copy d1) new"
          using setitem_contracts[OF cvs new narrows_digit[OF x]] .
        have c2: "contracts d1 new" using contracts_copy[of d1] cn by (rule contracts_trans)
        have "candidate_map new" using c2 cm1 by (rule contracts_candidate_map)
        moreover have "nonempty_values new" using c2 ne1 by (rule contracts_nonempty)
        ultimately have "\<exists>r. search po new = Inr r"
          using "1.IH"[OF red refl _ a _ pairs m refl vs x new "1.prems"(1)] t True by simp
        with new show ?thesis by simp
      qed
      then have "\<forall>x \<in> set vs. \<exists>r. ?body x = Inr r" by blast
      from first_truthy_ok[of vs ?body, OF this] obtain r where
        "first_truthy ?body vs = Inr r" by blast
      with red t a True pairs m vs show ?thesis by (subst search.simps) simp
    qed
  qed
qed

lemma map_of_map_snd:
  "map_of (map (\<lambda>p. (fst p, f (snd p))) xs) k = map_option f (map_of xs k)"
  by (induction xs) auto

lemma grid_values_agrees:
  assumes "contracts (VisualizibleDict (grid_values grid) hist) d"
  shows "agrees grid d"
  unfolding agrees_def
proof (intro ballI impI)
  fix clue assume clue: "clue \<in> set (zip boxes grid)" and dig: "snd clue \<in> set ''123456789''"
  have "distinct (map fst (zip boxes grid))"
    using distinct_boxes by (simp add: map_fst_zip_take distinct_take)
  then have "map_of (zip boxes grid) (fst clue) = Some (snd clue)"
    using clue by (cases clue) simp
  moreover define g where "g c = (if c \<in> set ''123456789'' then [c] else ''123456789'')" for c
  have "grid_values grid = map (\<lambda>p. (fst p, g (snd p))) (zip boxes grid)"
    unfolding grid_values_def boxes_def g_def ..
  moreover have "g (snd clue) = [snd clue]" using dig unfolding g_def by (rule if_P)
  ultimately have "map_of (grid_values grid) (fst clue) = Some [snd clue]"
    by (simp only: map_of_map_snd option.map)
  then have "getitem (VisualizibleDict (grid_values grid) hist) (fst clue) = Inr [snd clue]"
    by (simp add: getitem_Inr)
  from contracts_solved_getitem[OF assms this] show "getitem d (fst clue) = Inr [snd clue]" .
qed

lemma clash_grid_clues:
  "(''A1'', CHR ''1'') \<in> set (zip boxes clash_grid)"
  "(''A4'', CHR ''1'') \<in> set (zip boxes clash_grid)"
  "''A1'' \<in> set boxes"
  "length clash_grid = 81"
  by code_simp+

lemma clash_grid_contradictory: "contradictory clash_grid"
  unfolding contradictory_def
proof
  assume "\<exists>d. solved_grid d \<and> agrees clash_grid d"
  then obtain d where sg: "solved_grid d" and ag: "agrees clash_grid d" by blast
  from ag clash_grid_clues(1,2) have a1: "getitem d ''A1'' = Inr ''1''"
    and a4: "getitem d ''A4'' = Inr ''1''"
    unfolding agrees_def by fastforce+
  have "''A4'' \<in> set (peer_list ''A1'')" by (subst clash_facts(5)) simp
  from solved_grid_peers_differ[OF enumerates_peers_peer_list sg clash_grid_clues(3) this a1] a4
  show False by simp
qed

subsection \<open>The box the search branches on, in an example\<close>

lemma getitem_tabulated:
  "b \<in> set bs \<Longrightarrow> getitem (Dict (map (\<lambda>b. (b, f b)) bs)) b = Inr (f b)"
  by (simp add: getitem_def map_of_map_restrict)

lemma digit_boxes_tabulated:
  "set u \<subseteq> set bs \<Longrightarrow>
   digit_boxes (Dict (map (\<lambda>b. (b, f b)) bs)) c u = Inr (filter (\<lambda>b. c \<in> set (f b)) u)"
  by (induction u) (simp_all add: getitem_tabulated)

lemma only_choice_digits_idle:
  assumes "set u \<subseteq> set (keys d)"
    and "\<forall>c \<in> set ds. \<forall>bs. digit_boxes d c u = Inr bs \<longrightarrow> length bs \<noteq> 1"
  shows "only_choice_digits u ds d = Inr d"
  using assms(2)
proof (induction ds)
  case Nil
  then show ?case by simp
next
  case (Cons c ds)
  from digit_boxes_ok[OF assms(1)] obtain bs where bs: "digit_boxes d c u = Inr bs" by blast
  with Cons.prems have "length bs \<noteq> 1" by simp
  then have "\<nexists>b. bs = [b]" by auto
  moreover from Cons have "only_choice_digits u ds d = Inr d" by simp
  ultimately show ?case using bs by (auto split: list.splits)
qed

lemma only_choice_units_idle:
  "\<forall>u \<in> set us. set u \<subseteq> set (keys d) \<and>
      (\<forall>c \<in> set ''123456789''. \<forall>bs. digit_boxes d c u = Inr bs \<longrightarrow> length bs \<noteq> 1) \<Longrightarrow>
   only_choice_units us d = Inr d"
proof (induction us)
  case Nil
  then show ?case by simp
next
  case (Cons u us)
  then have "only_choice_digits u ''123456789'' d = Inr d"
    by (intro only_choice_digits_idle) simp_all
  with Cons show ?case by (simp del: only_choice_digits.simps)
qed

lemma filter_all_but_one:
  "distinct u \<Longrightarrow> length u - 1 \<le> length (filter (\<lambda>b. b \<noteq> x) u)"
proof (induction u)
  case Nil
  then show ?case by simp
next
  case (Cons a u)
  show ?case
  proof (cases "a = x")
    case True
    with Cons.prems have "filter (\<lambda>b. b \<noteq> x) u = u" by (auto intro: filter_True)
    with True show ?thesis by simp
  next
    case False
    with Cons show ?thesis by auto
  qed
qed

lemma filter_length_mono:
  "(\<And>x. Q x \<Longrightarrow> P x) \<Longrightarrow> length (filter Q xs) \<le> length (filter P xs)"
  by (induction xs) auto

lemma branch_example_stable:
  "reduce_puzzle peer_list branch_example = Inr (PyDict branch_example)"
proof -
  let ?f = "\<lambda>b. if b = ''I9'' then ''12'' else ''123456789''"
  have k: "keys branch_example = boxes"
    by (simp add: branch_example_def keys_def comp_def)
  have g: "getitem branch_example b = Inr (?f b)" if "b \<in> set boxes" for b
    unfolding branch_example_def using that by (rule getitem_tabulated)
  have e: "eliminate peer_list branch_example = Inr (RetValues branch_example)"
    unfolding eliminate_def k
  proof (rule eliminate_boxes_unchanged, intro ballI)
    fix b assume "b \<in> set boxes"
    from g[OF this] show "\<exists>v. getitem branch_example b = Inr v \<and>
      (\<forall>c. v = [c] \<longrightarrow> box_peers b \<noteq> None \<and>
         (\<forall>p \<in> set (peer_list b). \<exists>w. getitem branch_example p = Inr w \<and> c \<notin> set w \<and> w \<noteq> []))"
      by auto
  qed
  have o: "only_choice branch_example = Inr branch_example"
    unfolding only_choice_def
  proof (rule only_choice_units_idle, intro ballI conjI allI impI)
    fix u assume u: "u \<in> set units"
    with units_in_boxes have ub: "set u \<subseteq> set boxes" by blast
    then show "set u \<subseteq> set (keys branch_example)" by (simp add: k)
    fix c bs assume c: "c \<in> set ''123456789''" and bs: "digit_boxes branch_example c u = Inr bs"
    from bs digit_boxes_tabulated[OF ub, of ?f c]
    have "bs = filter (\<lambda>b. c \<in> set (?f b)) u" by (simp add: branch_example_def)
    moreover have "length (filter (\<lambda>b. b \<noteq> ''I9'') u) \<le> length (filter (\<lambda>b. c \<in> set (?f b)) u)"
      using c by (intro filter_length_mono) auto
    moreover from u units_shape have "8 \<le> length (filter (\<lambda>b. b \<noteq> ''I9'') u)"
      using filter_all_but_one[of u "''I9''"] by auto
    ultimately show "length bs \<noteq> 1" by simp
  qed
  have "length (keys branch_example) = 81" using k length_boxes by simp
  then have t: "truthy (PyDict branch_example)" by (auto simp: keys_def)
  show ?thesis using e o t by (subst reduce_puzzle.simps) (simp add: Let_def)
qed

lemma branch_example_pairs:
  "unsolved_pairs branch_example boxes
     = Inr (map (\<lambda>b. (b, if b = ''I9'' then 2 else 9)) boxes)"
proof -
  have "set bs \<subseteq> set boxes \<Longrightarrow> unsolved_pairs branch_example bs
     = Inr (map (\<lambda>b. (b, if b = ''I9'' then 2 else 9)) bs)" for bs
    by (induction bs) (simp_all add: branch_example_def getitem_tabulated)
  then show ?thesis by simp
qed

lemma branch_example_min:
  "py_min (map (\<lambda>b. (b, if b = ''I9'' then 2 else 9 :: nat)) boxes) = Inr (''A1'', 9)"
  by code_simp

lemma boxes_first: "boxes = ''A1'' # tl boxes" "''A1'' \<in> set boxes" "''I9'' \<in> set boxes"
  by code_simp+

subsection \<open>Naked twins: a pass changes the dict exactly when twins have something left to remove\<close>

lemma lighter_refl: "lighter d d"
  by (simp add: lighter_def)

lemma lighter_trans: "lighter a b \<Longrightarrow> lighter b c \<Longrightarrow> lighter a c"
  by (auto simp: lighter_def)

lemma update_keys_present:
  "map_of al k = Some v \<Longrightarrow> map fst (AList.update k v' al) = map fst al"
  by (induction al) auto

lemma setitem_lighter:
  assumes g: "getitem d k = Inr v" and s: "setitem d k v' = Inr d'"
    and l: "v' = v \<or> length v' < length v"
  shows "lighter d d'"
proof (cases "v' = v")
  case True
  with g s setitem_same[of d k v] show ?thesis by (simp add: lighter_def)
next
  case False
  with l have less: "length v' < length v" by simp
  have items: "items_of d' = AList.update k v' (items_of d)" using s by (rule setitem_items)
  have m: "map_of (items_of d) k = Some v" using g by (simp add: getitem_Inr)
  from update_total_len[OF m, of v'] items less have "total_len d' < total_len d"
    by (simp add: total_len_def)
  moreover have "keys d' = keys d" using items update_keys_present[OF m] by (simp add: keys_def)
  ultimately show ?thesis by (simp add: lighter_def)
qed

lemma replace_char_shorter:
  "replace_char c v = v \<or> length (replace_char c v) < length v"
  unfolding replace_char_def
  by (metis filter_True length_filter_less)

lemma replace_twice_shorter:
  "replace_char p1 (replace_char p0 v) = v \<or> length (replace_char p1 (replace_char p0 v)) < length v"
  using replace_char_shorter[of p0 v] replace_char_shorter[of p1 "replace_char p0 v"]
  by auto

lemma twins_others_lighter:
  "twins_others p0 p1 bs d = Inr d' \<Longrightarrow> lighter d d'"
proof (induction bs arbitrary: d)
  case Nil
  then show ?case by (simp add: lighter_refl)
next
  case (Cons b bs)
  from Cons.prems obtain v d1 where v: "getitem d b = Inr v"
    and d1: "setitem d b (replace_char p1 (replace_char p0 v)) = Inr d1"
    and rest: "twins_others p0 p1 bs d1 = Inr d'"
    by (auto split: sum.splits)
  from setitem_lighter[OF v d1 replace_twice_shorter] Cons.IH[OF rest]
  show ?case by (rule lighter_trans)
qed

lemma twins_box2_lighter:
  "twins_box2 u b1 bs d = Inr d' \<Longrightarrow> lighter d d'"
proof (induction bs arbitrary: d)
  case Nil
  then show ?case by (simp add: lighter_refl)
next
  case (Cons b2 bs)
  from Cons.prems obtain d1 where one: "twins_box2 u b1 [b2] d = Inr d1"
    and rest: "twins_box2 u b1 bs d1 = Inr d'"
    by (auto split: if_splits sum.splits list.splits)
  have "lighter d d1" using one
    by (auto split: if_splits sum.splits list.splits
        intro: lighter_refl dest: twins_others_lighter)
  with Cons.IH[OF rest] show ?case by (blast intro: lighter_trans)
qed

lemma twins_box1_lighter:
  "twins_box1 u bs d = Inr d' \<Longrightarrow> lighter d d'"
  by (induction bs arbitrary: d)
     (auto simp: lighter_refl split: sum.splits dest!: twins_box2_lighter intro: lighter_trans)

lemma twins_units_lighter:
  "twins_units us d = Inr d' \<Longrightarrow> lighter d d'"
  by (induction us arbitrary: d)
     (auto simp: lighter_refl split: sum.splits dest!: twins_box1_lighter intro: lighter_trans)

lemma replace_char_absent: "c \<notin> set v \<Longrightarrow> replace_char c v = v"
  by (auto simp: replace_char_def intro: filter_True)

lemma replace_char_present: "c \<in> set v \<Longrightarrow> length (replace_char c v) < length v"
  unfolding replace_char_def by (simp add: length_filter_less)

lemma twins_others_idle:
  "\<forall>b \<in> set bs. \<exists>v. getitem d b = Inr v \<and> p0 \<notin> set v \<and> p1 \<notin> set v \<Longrightarrow>
   twins_others p0 p1 bs d = Inr d"
proof (induction bs)
  case Nil
  then show ?case by simp
next
  case (Cons b bs)
  then obtain v where v: "getitem d b = Inr v" "p0 \<notin> set v" "p1 \<notin> set v" by auto
  then have "replace_char p1 (replace_char p0 v) = v" by (simp add: replace_char_absent)
  with v setitem_same[OF v(1)] Cons show ?case by simp
qed

lemma twins_others_strict:
  "twins_others p0 p1 bs d = Inr d' \<Longrightarrow> b \<in> set bs \<Longrightarrow> getitem d b = Inr v \<Longrightarrow>
   p0 \<in> set v \<or> p1 \<in> set v \<Longrightarrow> total_len d' < total_len d"
proof (induction bs arbitrary: d)
  case Nil
  then show ?case by simp
next
  case (Cons x bs)
  from Cons.prems(1) obtain w d1 where w: "getitem d x = Inr w"
    and d1: "setitem d x (replace_char p1 (replace_char p0 w)) = Inr d1"
    and rest: "twins_others p0 p1 bs d1 = Inr d'"
    by (auto split: sum.splits)
  have l1: "lighter d d1" using setitem_lighter[OF w d1 replace_twice_shorter] .
  have l2: "lighter d1 d'" using rest by (rule twins_others_lighter)
  show ?case
  proof (cases "d1 = d")
    case True
    have "b \<noteq> x"
    proof
      assume "b = x"
      with w Cons.prems(3) have "w = v" by simp
      from setitem_getitem[OF d1] True w have "replace_char p1 (replace_char p0 w) = w" by simp
      moreover have "length (replace_char p1 (replace_char p0 w)) < length w"
        using Cons.prems(4) \<open>w = v\<close> replace_char_present[of p0 w]
          replace_char_present[of p1 "replace_char p0 w"] replace_char_shorter[of p1 "replace_char p0 w"]
          replace_char_absent[of p0 w]
        by (cases "p0 \<in> set w") auto
      ultimately show False by simp
    qed
    with Cons.prems(2) have "b \<in> set bs" by simp
    from Cons.IH[OF _ this] rest True Cons.prems(3,4) show ?thesis by simp
  next
    case False
    with l1 l2 show ?thesis by (auto simp: lighter_def)
  qed
qed

lemma pair_idle:
  assumes "getitem d b1 = Inr v1" "getitem d b2 = Inr v2"
    and "\<forall>b \<in> set u. \<exists>v. getitem d b = Inr v"
    and "\<not> (twin_pair d b1 b2 \<and> prohibited_left d u b1 b2)"
  shows "twins_box2 u b1 [b2] d = Inr d"
proof (cases "twin_pair d b1 b2")
  case False
  with assms(1,2) show ?thesis
    by (auto simp: twin_pair_def split: list.splits)
next
  case True
  then obtain p0 p1 where p: "b1 < b2" "v1 = [p0, p1]" "set [p0, p1] = set v2"
    using assms(1,2) by (auto simp: twin_pair_def split: list.splits)
  from True assms(4) have np: "\<not> prohibited_left d u b1 b2" by simp
  have "\<forall>b \<in> set (filter (\<lambda>box. box \<notin> set [b1, b2]) u).
          \<exists>v. getitem d b = Inr v \<and> p0 \<notin> set v \<and> p1 \<notin> set v"
  proof
    fix b assume b: "b \<in> set (filter (\<lambda>box. box \<notin> set [b1, b2]) u)"
    with assms(3) obtain v where v: "getitem d b = Inr v" by auto
    from np b v assms(1) p(2) have "p0 \<notin> set v \<and> p1 \<notin> set v"
      by (auto simp: prohibited_left_def)
    with v show "\<exists>v. getitem d b = Inr v \<and> p0 \<notin> set v \<and> p1 \<notin> set v" by blast
  qed
  from twins_others_idle[OF this] p assms(1,2) show ?thesis by simp
qed

lemma pair_strict:
  assumes "twin_pair d b1 b2" "prohibited_left d u b1 b2" "twins_box2 u b1 [b2] d = Inr d'"
  shows "total_len d' < total_len d"
proof -
  from assms(1) obtain p0 p1 v2 where p: "b1 < b2" "getitem d b1 = Inr [p0, p1]"
    "getitem d b2 = Inr v2" "set [p0, p1] = set v2"
    by (auto simp: twin_pair_def split: sum.splits list.splits)
  from assms(2) p(2) obtain b where b0: "b \<in> set u" "b \<notin> set [b1, b2]"
    "case getitem d b of Inr v \<Rightarrow> p0 \<in> set v \<or> p1 \<in> set v | Inl e \<Rightarrow> False"
    unfolding prohibited_left_def by auto
  then obtain v where b: "b \<in> set u" "b \<notin> set [b1, b2]"
    "getitem d b = Inr v" "p0 \<in> set v \<or> p1 \<in> set v"
    by (cases "getitem d b") auto
  from assms(3) p have "twins_others p0 p1 (filter (\<lambda>box. box \<notin> set [b1, b2]) u) d = Inr d'"
    by (auto split: sum.splits)
  from twins_others_strict[OF this _ b(3,4)] b(1,2) show ?thesis by simp
qed

lemma lighter_total_len: "lighter d d' \<Longrightarrow> total_len d' \<le> total_len d"
  by (auto simp: lighter_def)

lemma twins_box2_cons:
  "twins_box2 u b1 (b2 # bs) d =
     (case twins_box2 u b1 [b2] d of Inl e \<Rightarrow> Inl e | Inr d1 \<Rightarrow> twins_box2 u b1 bs d1)"
  by (auto split: sum.splits list.splits)

lemma twins_box2_idle:
  assumes "\<forall>b \<in> set u. \<exists>v. getitem d b = Inr v" "b1 \<in> set u" "set bs \<subseteq> set u"
    and "\<forall>b2 \<in> set bs. \<not> (twin_pair d b1 b2 \<and> prohibited_left d u b1 b2)"
  shows "twins_box2 u b1 bs d = Inr d"
  using assms(3,4)
proof (induction bs)
  case Nil
  then show ?case by simp
next
  case (Cons b2 bs)
  from assms(1,2) obtain v1 where v1: "getitem d b1 = Inr v1" by blast
  from assms(1) Cons.prems(1) obtain v2 where v2: "getitem d b2 = Inr v2" by auto
  note v1 v2
  from pair_idle[OF this assms(1)] Cons.prems(2) have "twins_box2 u b1 [b2] d = Inr d" by simp
  moreover from Cons have "twins_box2 u b1 bs d = Inr d" by simp
  ultimately show ?case by (subst twins_box2_cons) simp
qed

lemma twins_box2_strict:
  "twins_box2 u b1 bs d = Inr d' \<Longrightarrow> b2 \<in> set bs \<Longrightarrow> twin_pair d b1 b2 \<Longrightarrow>
   prohibited_left d u b1 b2 \<Longrightarrow> total_len d' < total_len d"
proof (induction bs arbitrary: d)
  case Nil
  then show ?case by simp
next
  case (Cons x bs)
  from Cons.prems(1) obtain d1 where one: "twins_box2 u b1 [x] d = Inr d1"
    and rest: "twins_box2 u b1 bs d1 = Inr d'"
    by (subst (asm) twins_box2_cons) (auto split: sum.splits)
  have l1: "lighter d d1" using one by (rule twins_box2_lighter)
  have l2: "total_len d' \<le> total_len d1"
    using twins_box2_lighter[OF rest] by (rule lighter_total_len)
  show ?case
  proof (cases "x = b2")
    case True
    with pair_strict[OF Cons.prems(3,4)] one l2 show ?thesis by simp
  next
    case False
    with Cons.prems(2) have in_bs: "b2 \<in> set bs" by simp
    show ?thesis
    proof (cases "d1 = d")
      case True
      with Cons.IH[OF _ in_bs] rest Cons.prems(3,4) show ?thesis by simp
    next
      case False
      with l1 l2 show ?thesis by (auto simp: lighter_def)
    qed
  qed
qed

lemma twins_box1_idle:
  assumes "\<forall>b \<in> set u. \<exists>v. getitem d b = Inr v" "set bs \<subseteq> set u"
    and "\<forall>b1 \<in> set bs. \<forall>b2 \<in> set u. \<not> (twin_pair d b1 b2 \<and> prohibited_left d u b1 b2)"
  shows "twins_box1 u bs d = Inr d"
  using assms(2,3)
proof (induction bs)
  case Nil
  then show ?case by simp
next
  case (Cons b1 bs)
  then have "twins_box2 u b1 u d = Inr d"
    using assms(1) by (intro twins_box2_idle) auto
  with Cons show ?case by simp
qed

lemma twins_box1_strict:
  "twins_box1 u bs d = Inr d' \<Longrightarrow> b1 \<in> set bs \<Longrightarrow> b2 \<in> set u \<Longrightarrow> twin_pair d b1 b2 \<Longrightarrow>
   prohibited_left d u b1 b2 \<Longrightarrow> total_len d' < total_len d"
proof (induction bs arbitrary: d)
  case Nil
  then show ?case by simp
next
  case (Cons x bs)
  from Cons.prems(1) obtain d1 where one: "twins_box2 u x u d = Inr d1"
    and rest: "twins_box1 u bs d1 = Inr d'"
    by (auto split: sum.splits)
  have l1: "lighter d d1" using one by (rule twins_box2_lighter)
  have l2: "total_len d' \<le> total_len d1"
    using twins_box1_lighter[OF rest] by (rule lighter_total_len)
  show ?case
  proof (cases "x = b1")
    case True
    with twins_box2_strict[OF _ Cons.prems(3,4,5)] one l2 show ?thesis by fastforce
  next
    case False
    with Cons.prems(2) have in_bs: "b1 \<in> set bs" by simp
    show ?thesis
    proof (cases "d1 = d")
      case True
      with Cons.IH[OF _ in_bs Cons.prems(3)] rest Cons.prems(4,5) show ?thesis by simp
    next
      case False
      with l1 l2 show ?thesis by (auto simp: lighter_def)
    qed
  qed
qed

lemma twins_units_idle:
  assumes "\<forall>u \<in> set us. \<forall>b \<in> set u. \<exists>v. getitem d b = Inr v"
    and "\<forall>u \<in> set us. \<forall>b1 \<in> set u. \<forall>b2 \<in> set u.
          \<not> (twin_pair d b1 b2 \<and> prohibited_left d u b1 b2)"
  shows "twins_units us d = Inr d"
  using assms
proof (induction us)
  case Nil
  then show ?case by simp
next
  case (Cons u us)
  then have "twins_box1 u u d = Inr d" by (intro twins_box1_idle) auto
  with Cons show ?case by simp
qed

lemma twins_units_strict:
  "twins_units us d = Inr d' \<Longrightarrow> u \<in> set us \<Longrightarrow> b1 \<in> set u \<Longrightarrow> b2 \<in> set u \<Longrightarrow>
   twin_pair d b1 b2 \<Longrightarrow> prohibited_left d u b1 b2 \<Longrightarrow> total_len d' < total_len d"
proof (induction us arbitrary: d)
  case Nil
  then show ?case by simp
next
  case (Cons x us)
  from Cons.prems(1) obtain d1 where one: "twins_box1 x x d = Inr d1"
    and rest: "twins_units us d1 = Inr d'"
    by (auto split: sum.splits)
  have l1: "lighter d d1" using one by (rule twins_box1_lighter)
  have l2: "total_len d' \<le> total_len d1"
    using twins_units_lighter[OF rest] by (rule lighter_total_len)
  show ?case
  proof (cases "x = u")
    case True
    with twins_box1_strict[OF _ Cons.prems(3,4,5,6)] one l2 show ?thesis by fastforce
  next
    case False
    with Cons.prems(2) have in_us: "u \<in> set us" by simp
    show ?thesis
    proof (cases "d1 = d")
      case True
      with Cons.IH[OF _ in_us Cons.prems(3,4)] rest Cons.prems(5,6) show ?thesis by simp
    next
      case False
      with l1 l2 show ?thesis by (auto simp: lighter_def)
    qed
  qed
qed

section \<open>The claims\<close>

subsection \<open>C9: item assignment on the recording dict\<close>

lemma update_map_of: "map_of (AList.update k v al) = (map_of al)(k \<mapsto> v)"
  by (simp add: update_conv')

lemma update_keys: "map_of al k = Some cur \<Longrightarrow> map fst (AList.update k v al) = map fst al"
  by (induction al) auto

text \<open>
  C9. On a \<open>VisualizibleDict\<close> that has the box, assigning the value the box already has
  changes nothing: the dict and its list of assignments are returned as they were.
  Assigning another value stores it at the box, leaves every other box and the order
  of the keys as they were, and appends the dict as it is after the write to the
  assignments exactly when the new value has length 1.
\<close>

theorem setitem_records:
  "getitem (VisualizibleDict al hist) box = Inr cur \<Longrightarrow>
     (cur = val \<longrightarrow> setitem (VisualizibleDict al hist) box val = Inr (VisualizibleDict al hist)) \<and>
     (cur \<noteq> val \<longrightarrow>
        (\<exists>al' hist'. setitem (VisualizibleDict al hist) box val = Inr (VisualizibleDict al' hist')
            \<and> map_of al' = (map_of al)(box \<mapsto> val)
            \<and> map fst al' = map fst al
            \<and> (length val = 1 \<longrightarrow> hist' = hist @ [al'])
            \<and> (length val \<noteq> 1 \<longrightarrow> hist' = hist)))"
  by (auto simp: getitem_Inr Let_def update_map_of update_keys)

theorem setitem_records_witness:
  "getitem (VisualizibleDict [(''A1'', ''123''), (''A2'', ''45'')] []) ''A1'' = Inr ''123''
   \<and> setitem (VisualizibleDict [(''A1'', ''123''), (''A2'', ''45'')] []) ''A1'' ''123''
       = Inr (VisualizibleDict [(''A1'', ''123''), (''A2'', ''45'')] [])
   \<and> setitem (VisualizibleDict [(''A1'', ''123''), (''A2'', ''45'')] []) ''A1'' ''1''
       = Inr (VisualizibleDict [(''A1'', ''1''), (''A2'', ''45'')] [[(''A1'', ''1''), (''A2'', ''45'')]])
   \<and> setitem (VisualizibleDict [(''A1'', ''123''), (''A2'', ''45'')] []) ''A1'' ''12''
       = Inr (VisualizibleDict [(''A1'', ''12''), (''A2'', ''45'')] [])"
  using setitem_records [of "[(''A1'', ''123''), (''A2'', ''45'')]" "[]" "''A1''" "''123''" "''1''"]
  by (simp add: getitem_def Let_def)

subsection \<open>C8: the units of a box\<close>

lemma box_units_all:
  "\<forall>s \<in> set boxes.
     length (filter (\<lambda>u. s \<in> set u) row_units) = 1 \<and>
     length (filter (\<lambda>u. s \<in> set u) column_units) = 1 \<and>
     length (filter (\<lambda>u. s \<in> set u) square_units) = 1 \<and>
     (case box_units s of
        None \<Rightarrow> False
      | Some us \<Rightarrow> distinct us \<and>
          length us = (if s = ''E5'' then 5 else if on_diagonal s then 4 else 3))"
  by code_simp

text \<open>
  C8, as the code has it. Every box lies in exactly one row unit, one column unit
  and one square unit. The units of a box are distinct, and there are 3 of them for a
  box on no diagonal, 4 for a box on one diagonal, and 5 for \<^verbatim>\<open>E5\<close>, the one box on
  both diagonals.
\<close>

theorem box_units_count:
  "s \<in> set boxes \<Longrightarrow>
     length (filter (\<lambda>u. s \<in> set u) row_units) = 1 \<and>
     length (filter (\<lambda>u. s \<in> set u) column_units) = 1 \<and>
     length (filter (\<lambda>u. s \<in> set u) square_units) = 1 \<and>
     (case box_units s of
        None \<Rightarrow> False
      | Some us \<Rightarrow> distinct us \<and>
          length us = (if s = ''E5'' then 5 else if on_diagonal s then 4 else 3))"
  using box_units_all by blast

theorem box_units_count_witness:
  "''B2'' \<in> set boxes \<and> on_diagonal ''B2'' \<and>
   box_units ''B2'' = Some [cross ''B'' cols, cross rows ''2'', cross ''ABC'' ''123'',
     [''A1'', ''B2'', ''C3'', ''D4'', ''E5'', ''F6'', ''G7'', ''H8'', ''I9'']]"
  using box_units_count [of "''B2''"] by code_simp

text \<open>
  The claim as the specification states it gives a box on a diagonal 5 units. The
  corner \<^verbatim>\<open>A1\<close> lies on a diagonal and has 4 units.
\<close>

theorem box_units_diagonal_counterexample:
  "''A1'' \<in> set boxes \<and> on_diagonal ''A1'' \<and>
   box_units ''A1'' = Some [cross ''A'' cols, cross rows ''1'', cross ''ABC'' ''123'',
     [''A1'', ''B2'', ''C3'', ''D4'', ''E5'', ''F6'', ''G7'', ''H8'', ''I9'']] \<and>
   map length [the (box_units ''A1'')] \<noteq> [5]"
  by code_simp

subsection \<open>C4: elimination rejects before it stores an empty candidate set\<close>

text \<open>
  C4. \<^verbatim>\<open>eliminate\<close> returns \<^verbatim>\<open>False\<close>, leaving the dict in state \<open>s\<close>, exactly when its
  run reaches a point of this kind: the keys \<open>ks1\<close> before \<open>box\<close> have been processed
  without a failure (state \<open>s1\<close>), \<open>box\<close> holds the single digit \<open>c\<close>, the peers \<open>ps1\<close>
  of \<open>box\<close> have had \<open>c\<close> removed (state \<open>s\<close>), and removing \<open>c\<close> from the next peer
  \<open>p\<close> would leave it no candidate. The state \<open>s\<close> is the dict as the removals before
  that point left it: the empty string is not stored, and the peers \<open>ps2\<close> and the
  keys \<open>ks2\<close> after that point are not processed. A dict without an empty candidate
  set has none after \<^verbatim>\<open>eliminate\<close> either, whether it is returned or rejected.
\<close>

theorem eliminate_fails_exactly:
  "(eliminate peer_order values = Inr (RetFalse s) \<longleftrightarrow>
      (\<exists>ks1 box ks2 c s1 ps1 p ps2 v.
          keys values = ks1 @ box # ks2
        \<and> eliminate_boxes peer_order ks1 values = Inr (RetValues s1)
        \<and> getitem s1 box = Inr [c] \<and> box_peers box \<noteq> None
        \<and> peer_order box = ps1 @ p # ps2
        \<and> eliminate_peers c ps1 s1 = Inr (RetValues s)
        \<and> getitem s p = Inr v \<and> replace_char c v = []))
   \<and> (nonempty_values values \<longrightarrow> eliminate peer_order values = Inr r
        \<longrightarrow> nonempty_values (state_of r))"
proof
  show "eliminate peer_order values = Inr (RetFalse s) \<longleftrightarrow>
      (\<exists>ks1 box ks2 c s1 ps1 p ps2 v.
          keys values = ks1 @ box # ks2
        \<and> eliminate_boxes peer_order ks1 values = Inr (RetValues s1)
        \<and> getitem s1 box = Inr [c] \<and> box_peers box \<noteq> None
        \<and> peer_order box = ps1 @ p # ps2
        \<and> eliminate_peers c ps1 s1 = Inr (RetValues s)
        \<and> getitem s p = Inr v \<and> replace_char c v = [])"
    unfolding eliminate_def eliminate_boxes_fails eliminate_peers_fails by blast
  show "nonempty_values values \<longrightarrow> eliminate peer_order values = Inr r
        \<longrightarrow> nonempty_values (state_of r)"
    using eliminate_contracts contracts_nonempty by blast
qed

theorem eliminate_fails_exactly_witness:
  "nonempty_values (Dict (grid_values clash_grid))
   \<and> eliminate peer_list (Dict (grid_values clash_grid)) = Inr (RetFalse (Dict (grid_values clash_grid)))
   \<and> nonempty_values (state_of (RetFalse (Dict (grid_values clash_grid))))"
proof -
  let ?V = "Dict (grid_values clash_grid)"
  have ex: "\<exists>ks1 box ks2 c s1 ps1 p ps2 v.
          keys ?V = ks1 @ box # ks2
        \<and> eliminate_boxes peer_list ks1 ?V = Inr (RetValues s1)
        \<and> getitem s1 box = Inr [c] \<and> box_peers box \<noteq> None
        \<and> peer_list box = ps1 @ p # ps2
        \<and> eliminate_peers c ps1 s1 = Inr (RetValues ?V)
        \<and> getitem ?V p = Inr v \<and> replace_char c v = []"
    apply (rule exI[of _ "[]"], rule exI[of _ "''A1''"], rule exI[of _ "tl boxes"])
    apply (rule exI[of _ "CHR ''1''"], rule exI[of _ "?V"], rule exI[of _ "[]"])
    apply (rule exI[of _ "''A4''"], rule exI[of _ "tl (peer_list ''A1'')"], rule exI[of _ "''1''"])
    using clash_facts by (simp add: replace_char_def)
  have ne: "nonempty_values ?V" by (rule grid_values_nonempty)
  from eliminate_fails_exactly[of peer_list ?V ?V "RetFalse ?V"] ex ne
  show ?thesis by simp
qed

subsection \<open>C10: only choice never signals a contradiction\<close>

text \<open>
  C10. On a candidate map \<^verbatim>\<open>only_choice\<close> raises nothing and returns the dict, which is
  true in Python's sense (it is not empty); every box holds what it held, or one digit
  that was among its candidates. And the branch \<^verbatim>\<open>if not only_choice(values): return False\<close>
  of \<^verbatim>\<open>reduce_puzzle\<close> is dead: on every dict \<^verbatim>\<open>reduce_puzzle\<close> is equal to its own body
  with that branch left out.
\<close>

theorem only_choice_never_fails:
  "(candidate_map values \<longrightarrow>
      (\<exists>values'. only_choice values = Inr values' \<and> truthy (PyDict values')
         \<and> pointwise forced values values'))
   \<and> reduce_puzzle peer_order values =
       (case eliminate peer_order values of
          Inl e \<Rightarrow> Inl e
        | Inr (RetFalse s) \<Rightarrow> Inr PyFalse
        | Inr (RetValues values1) \<Rightarrow>
            if \<not> truthy (PyDict values1) then Inr PyFalse
            else (case only_choice values1 of
                    Inl e \<Rightarrow> Inl e
                  | Inr values2 \<Rightarrow>
                      if solved_count values2 = solved_count values then Inr (PyDict values2)
                      else reduce_puzzle peer_order values2))"
proof
  show "candidate_map values \<longrightarrow>
      (\<exists>values'. only_choice values = Inr values' \<and> truthy (PyDict values')
         \<and> pointwise forced values values')"
  proof
    assume cm: "candidate_map values"
    then have sub: "set boxes \<subseteq> set (keys values)" by (simp add: candidate_map_def)
    from only_choice_ok[OF sub] obtain values' where oc: "only_choice values = Inr values'" by blast
    have "keys values \<noteq> []" using cm length_boxes by (auto simp: candidate_map_def)
    then have "truthy (PyDict values)" by (simp add: keys_def)
    with oc have "truthy (PyDict values')" by (rule only_choice_truthy)
    moreover have "pointwise forced values values'"
      using oc unfolding only_choice_def by (rule only_choice_units_forced)
    ultimately show "\<exists>values'. only_choice values = Inr values' \<and> truthy (PyDict values')
         \<and> pointwise forced values values'" using oc by blast
  qed
  show "reduce_puzzle peer_order values =
       (case eliminate peer_order values of
          Inl e \<Rightarrow> Inl e
        | Inr (RetFalse s) \<Rightarrow> Inr PyFalse
        | Inr (RetValues values1) \<Rightarrow>
            if \<not> truthy (PyDict values1) then Inr PyFalse
            else (case only_choice values1 of
                    Inl e \<Rightarrow> Inl e
                  | Inr values2 \<Rightarrow>
                      if solved_count values2 = solved_count values then Inr (PyDict values2)
                      else reduce_puzzle peer_order values2))"
    by (subst reduce_puzzle.simps)
       (auto simp: Let_def split: sum.splits outcome.splits dest: only_choice_truthy)
qed

theorem only_choice_never_fails_witness:
  "candidate_map (Dict (grid_values example_grid))
   \<and> (\<exists>values'. only_choice (Dict (grid_values example_grid)) = Inr values'
         \<and> truthy (PyDict values')
         \<and> pointwise forced (Dict (grid_values example_grid)) values')"
  using only_choice_never_fails[of "Dict (grid_values example_grid)" peer_list]
    grid_values_candidate_map(1)[of example_grid]
  by (simp add: length_example_grid)

subsection \<open>C7: the reduction loop terminates\<close>

text \<open>
  C7. \<^verbatim>\<open>reduce_puzzle\<close> is a total function: its recursion is well-founded by the
  number of boxes that are not solved (the termination proof above), and on a candidate
  map it raises nothing. One pass of \<^verbatim>\<open>eliminate\<close> and \<^verbatim>\<open>only_choice\<close> never lowers the
  number of solved boxes, which is at most 81; the loop ends with the dict when the
  number has not grown over the pass, and goes on otherwise; it ends with \<^verbatim>\<open>False\<close>
  when \<^verbatim>\<open>eliminate\<close> rejects.
\<close>

theorem reduce_puzzle_terminates:
  "enumerates_peers peer_order \<Longrightarrow> candidate_map values \<Longrightarrow>
     (\<exists>r. reduce_puzzle peer_order values = Inr r) \<and>
     (\<forall>s. eliminate peer_order values = Inr (RetFalse s) \<longrightarrow>
          reduce_puzzle peer_order values = Inr PyFalse) \<and>
     (\<forall>values1 values2.
        eliminate peer_order values = Inr (RetValues values1) \<longrightarrow>
        only_choice values1 = Inr values2 \<longrightarrow>
          solved_count values \<le> solved_count values2 \<and> solved_count values2 \<le> 81 \<and>
          candidate_map values2 \<and>
          reduce_puzzle peer_order values =
            (if solved_count values2 \<le> solved_count values then Inr (PyDict values2)
             else reduce_puzzle peer_order values2))"
proof (intro conjI allI impI)
  assume po: "enumerates_peers peer_order" and cm: "candidate_map values"
  show "\<exists>r. reduce_puzzle peer_order values = Inr r" using po cm by (rule reduce_puzzle_ok)
  {
    fix s assume "eliminate peer_order values = Inr (RetFalse s)"
    then show "reduce_puzzle peer_order values = Inr PyFalse"
      by (subst reduce_puzzle.simps) simp
  }
  fix values1 values2
  assume e: "eliminate peer_order values = Inr (RetValues values1)"
    and o: "only_choice values1 = Inr values2"
  have c: "contracts values values2" using e o by (rule pass_contracts)
  show mono: "solved_count values \<le> solved_count values2" using c by (rule contracts_solved_count)
  show cm2: "candidate_map values2" using c cm by (rule contracts_candidate_map)
  show "solved_count values2 \<le> 81"
    using solved_count_le_length[of values2] candidate_map_length[OF cm2] by simp
  have "candidate_map values1"
    using eliminate_contracts[OF e] cm by (auto intro: contracts_candidate_map)
  then have t1: "truthy (PyDict values1)" using candidate_map_length[of values1] by auto
  have t2: "truthy (PyDict values2)" using candidate_map_length[OF cm2] by auto
  show "reduce_puzzle peer_order values =
            (if solved_count values2 \<le> solved_count values then Inr (PyDict values2)
             else reduce_puzzle peer_order values2)"
    using e o t1 t2 mono by (subst reduce_puzzle.simps) (auto simp: Let_def)
qed

theorem reduce_puzzle_terminates_witness:
  "enumerates_peers peer_list \<and> candidate_map (Dict (grid_values example_grid))
   \<and> (\<exists>r. reduce_puzzle peer_list (Dict (grid_values example_grid)) = Inr r)"
  using reduce_puzzle_terminates[OF enumerates_peers_peer_list
      grid_values_candidate_map(1)[of example_grid]]
    enumerates_peers_peer_list grid_values_candidate_map(1)[of example_grid]
  by (simp add: length_example_grid)

subsection \<open>C2: what the search returns is a solved grid\<close>

text \<open>
  C2. When the candidates of the dict given to \<^verbatim>\<open>search\<close> are digits 1 to 9, a dict
  that \<^verbatim>\<open>search\<close> returns is a solved grid: every box holds exactly one digit, and
  every unit (9 rows, 9 columns, 9 squares, 2 diagonals) holds each digit in exactly
  one box. The same holds for every dict that \<^verbatim>\<open>solve\<close> returns, for any grid string.
\<close>

theorem search_returns_solved_grid:
  "enumerates_peers peer_order \<Longrightarrow>
     (digit_values values \<longrightarrow> search peer_order values = Inr (PyDict result)
        \<longrightarrow> solved_grid result) \<and>
     (solve peer_order grid = Inr (PyDict result) \<longrightarrow> solved_grid result)"
  using search_sound[of peer_order "values" result]
    search_sound[of peer_order "VisualizibleDict (grid_values grid) []" result]
    grid_values_digit_values(2)[of grid "[]"]
  by (auto simp: solve_def)

theorem search_returns_solved_grid_witness:
  "enumerates_peers peer_list
   \<and> solve peer_list example_solution
       = Inr (PyDict (VisualizibleDict (grid_values example_solution) []))
   \<and> solved_grid (VisualizibleDict (grid_values example_solution) [])"
  using search_returns_solved_grid[OF enumerates_peers_peer_list,
      of "VisualizibleDict (grid_values example_solution) []"
         "VisualizibleDict (grid_values example_solution) []" example_solution]
    example_solution_returned(3) enumerates_peers_peer_list
  by simp

subsection \<open>C5: elimination is a contracting map\<close>

text \<open>
  C5. When \<^verbatim>\<open>eliminate\<close> returns the dict, the dict has the keys it had, and every
  box has at most as many candidates as before.
\<close>

theorem eliminate_contracting:
  "eliminate peer_order values = Inr (RetValues values') \<Longrightarrow> getitem values box = Inr before \<Longrightarrow>
   keys values' = keys values \<and>
   (\<exists>after. getitem values' box = Inr after \<and> length after \<le> length before)"
  using eliminate_contracts[of peer_order "values" "RetValues values'"]
    pointwise_getitem[of narrows "values" values' box before]
  by (auto simp: narrows_def contracts_keys)

theorem eliminate_contracting_witness:
  "eliminate peer_list (VisualizibleDict (grid_values example_solution) [])
     = Inr (RetValues (VisualizibleDict (grid_values example_solution) []))
   \<and> getitem (VisualizibleDict (grid_values example_solution) []) ''A1'' = Inr ''2''
   \<and> (\<exists>after. getitem (VisualizibleDict (grid_values example_solution) []) ''A1'' = Inr after
         \<and> length after \<le> length ''2'')"
  using eliminate_contracting[OF example_solution_returned(2) example_solution_A1]
    example_solution_returned(2) example_solution_A1
  by simp

subsection \<open>C3: a contradictory grid fails\<close>

text \<open>
  C3. For a grid string of 81 characters with which no solved grid agrees, \<^verbatim>\<open>solve\<close>
  raises nothing and returns no dict: it returns \<^verbatim>\<open>False\<close> (the reduction at the root
  rejected) or \<^verbatim>\<open>None\<close> (every branch at the root rejected), the two values the
  callers of \<^verbatim>\<open>search\<close> read as failure.
\<close>

theorem contradictory_grid_fails:
  "enumerates_peers peer_order \<Longrightarrow> length grid = 81 \<Longrightarrow> contradictory grid \<Longrightarrow>
   solve peer_order grid = Inr PyFalse \<or> solve peer_order grid = Inr PyNone"
proof -
  assume po: "enumerates_peers peer_order" and len: "length grid = 81"
    and contra: "contradictory grid"
  let ?V = "VisualizibleDict (grid_values grid) []"
  have cm: "candidate_map ?V" using len by (simp add: grid_values_candidate_map)
  have ne: "nonempty_values ?V"
    using grid_values_nonempty[of grid] by (simp add: nonempty_values_def)
  from search_ok[OF po cm ne] obtain r where r: "search peer_order ?V = Inr r" by blast
  have "r \<noteq> PyDict d" for d
  proof
    assume "r = PyDict d"
    with r search_sound[OF _ po grid_values_digit_values(2), of grid "[]" d]
    have "solved_grid d" "contracts ?V d" by auto
    with grid_values_agrees[of grid "[]" d] contra show False
      unfolding contradictory_def by blast
  qed
  with r show ?thesis by (cases r) (auto simp: solve_def)
qed

theorem contradictory_grid_fails_witness:
  "enumerates_peers peer_list \<and> length clash_grid = 81 \<and> contradictory clash_grid
   \<and> (solve peer_list clash_grid = Inr PyFalse \<or> solve peer_list clash_grid = Inr PyNone)"
  using contradictory_grid_fails[OF enumerates_peers_peer_list clash_grid_clues(4)
      clash_grid_contradictory]
    enumerates_peers_peer_list clash_grid_clues(4) clash_grid_contradictory
  by simp

subsection \<open>C1: the box the search branches on\<close>

text \<open>
  C1 does not hold of the code. \<^verbatim>\<open>min\<close> compares the tuples \<^verbatim>\<open>(box, len(values[box]))\<close>,
  box name first, so it yields the unsolved box with the least name, whatever the
  sizes. On \<open>branch_example\<close> the reduction changes nothing, \<^verbatim>\<open>I9\<close> is the one box
  with two candidates, and the search branches on \<^verbatim>\<open>A1\<close>, over its nine candidates.
\<close>

theorem search_branches_on_first_unsolved_box:
  "reduce_puzzle peer_list branch_example = Inr (PyDict branch_example)
   \<and> getitem branch_example ''A1'' = Inr ''123456789''
   \<and> getitem branch_example ''I9'' = Inr ''12''
   \<and> any_unsolved branch_example boxes = Inr True
   \<and> unsolved_pairs branch_example boxes
        = Inr (map (\<lambda>b. (b, if b = ''I9'' then 2 else 9)) boxes)
   \<and> py_min (map (\<lambda>b. (b, if b = ''I9'' then 2 else 9 :: nat)) boxes) = Inr (''A1'', 9)
   \<and> search peer_list branch_example
        = first_truthy
            (\<lambda>value. case setitem (copy branch_example) ''A1'' [value] of
                        Inl e \<Rightarrow> Inl e
                      | Inr new_sudoku \<Rightarrow> search peer_list new_sudoku)
            ''123456789''"
proof -
  have a1: "getitem branch_example ''A1'' = Inr ''123456789''"
    using getitem_tabulated[OF boxes_first(2)] by (simp add: branch_example_def)
  have i9: "getitem branch_example ''I9'' = Inr ''12''"
    using getitem_tabulated[OF boxes_first(3)] by (simp add: branch_example_def)
  have au: "any_unsolved branch_example boxes = Inr True"
    by (subst boxes_first(1)) (simp add: a1)
  have "keys branch_example = boxes" by (simp add: branch_example_def keys_def comp_def)
  then have "length (keys branch_example) = 81" using length_boxes by simp
  then have t: "truthy (PyDict branch_example)" by (auto simp: keys_def)
  have s: "search peer_list branch_example
        = first_truthy
            (\<lambda>value. case setitem (copy branch_example) ''A1'' [value] of
                        Inl e \<Rightarrow> Inl e
                      | Inr new_sudoku \<Rightarrow> search peer_list new_sudoku)
            ''123456789''"
    using t by (subst search.simps)
      (simp add: branch_example_stable au branch_example_pairs branch_example_min a1)
  from branch_example_stable a1 i9 au branch_example_pairs branch_example_min s
  show ?thesis by blast
qed

end
